theory Spec2Isabelle
  imports Main "HOL-Library.Multiset"
begin

section \<open>Key Mapper\<close>

text \<open>
  Both script variants compute the remote key inside the upload callback:
  \<^verbatim>\<open>(prefix ? `${prefix.replace(/(^\/+)|(\/+?$)/g, '')}/` : '') + rel.split('\\').join('/')\<close>
  (first variant) and the same with \<^verbatim>\<open>rel.replace(/\\/g, '/')\<close> (second variant).
  Strings are lists of characters; the two characters the code looks at are named.
\<close>

definition slash :: char where
  "slash = CHR ''/''"

definition backslash :: char where
  "backslash = CHR 0x5C"

text \<open>
  \<^verbatim>\<open>s.replace(/(^\/+)|(\/+?$)/g, '')\<close>: the global replace scans from the left. At the
  start of the string the first alternative takes the whole leading run of slashes
  (greedy). Anywhere, the second alternative takes a run of slashes that has to reach
  the end of the string (the lazy run is extended until \<^verbatim>\<open>$\<close> holds). A character at
  which neither alternative matches is kept. The flag says whether the scan is still
  at index 0, the only place where \<^verbatim>\<open>^\<close> holds.
\<close>

function replace_trim :: "bool \<Rightarrow> string \<Rightarrow> string" where
  "replace_trim at_start [] = []"
| "replace_trim at_start (c # cs) =
     (if at_start \<and> c = slash then replace_trim False (dropWhile (\<lambda>x. x = slash) cs)
      else if c = slash \<and> list_all (\<lambda>x. x = slash) cs then []
      else c # replace_trim False cs)"
  by pat_completeness auto
termination
  by (relation "measure (\<lambda>(b, s). length s)")
     (auto simp: less_Suc_eq_le length_dropWhile_le)

text \<open>\<^verbatim>\<open>s.split(sep)\<close> for a one-character separator, and \<^verbatim>\<open>parts.join(sep)\<close>.\<close>

fun split_on :: "char \<Rightarrow> string \<Rightarrow> string list" where
  "split_on sep [] = [] # []"
| "split_on sep (c # cs) =
     (if c = sep then [] # split_on sep cs
      else (case split_on sep cs of
              [] \<Rightarrow> [c] # []
            | p # ps \<Rightarrow> (c # p) # ps))"

fun join_with :: "char \<Rightarrow> string list \<Rightarrow> string" where
  "join_with sep [] = []"
| "join_with sep [p] = p"
| "join_with sep (p # q # ps) = p @ sep # join_with sep (q # ps)"

text \<open>\<^verbatim>\<open>rel.replace(/\\/g, '/')\<close>: every backslash becomes a slash.\<close>

definition replace_backslashes :: "string \<Rightarrow> string" where
  "replace_backslashes rel = map (\<lambda>c. if c = backslash then slash else c) rel"

text \<open>The key computation of the first variant (split/join) and of the second (replace).\<close>

definition key_split_join :: "string \<Rightarrow> string \<Rightarrow> string" where
  "key_split_join prefix rel =
     (if prefix \<noteq> [] then replace_trim True prefix @ [slash] else []) @
     join_with slash (split_on backslash rel)"

definition key_replace :: "string \<Rightarrow> string \<Rightarrow> string" where
  "key_replace prefix rel =
     (if prefix \<noteq> [] then replace_trim True prefix @ [slash] else []) @
     replace_backslashes rel"

text \<open>
  The specification's wording of the prefix trimming: all leading and all trailing
  slashes stripped.
\<close>

definition strip_slashes :: "string \<Rightarrow> string" where
  "strip_slashes p =
     rev (dropWhile (\<lambda>x. x = slash) (rev (dropWhile (\<lambda>x. x = slash) p)))"


text \<open>Whether a string begins, or ends, with a given character.\<close>

definition begins_with :: "char \<Rightarrow> string \<Rightarrow> bool" where
  "begins_with c s = (case s of [] \<Rightarrow> False | x # xs \<Rightarrow> x = c)"

definition ends_with :: "char \<Rightarrow> string \<Rightarrow> bool" where
  "ends_with c s = begins_with c (rev s)"

section \<open>Command line\<close>

text \<open>
  A JavaScript number as \<^verbatim>\<open>parseInt\<close> produces it. Every integer of magnitude at most
  \<^verbatim>\<open>2^53\<close> is a double and is kept exactly (\<open>Num\<close>; the negative zero of
  \<^verbatim>\<open>parseInt("-0")\<close> is \<open>Num 0\<close>, since \<^verbatim>\<open>Math.min\<close>, \<^verbatim>\<open>Array.from\<close> and \<^verbatim>\<open>new Array\<close>
  treat it as 0). A longer run of digits is rounded to a double of magnitude at least
  \<^verbatim>\<open>2^53\<close>, or to an infinity: of such a number only the sign is kept (\<open>Huge neg\<close>),
  which is all that \<^verbatim>\<open>Math.min\<close> with an array length and the two array constructors
  look at.
\<close>

datatype jsnum = NaN | Num int | Huge bool

text \<open>
  \<^verbatim>\<open>parseInt(s, 10)\<close>: leading white space is skipped, an optional sign is read, then
  the longest run of decimal digits; no digit at all gives \<^verbatim>\<open>NaN\<close>. Characters are the
  code units below 256, so the white space is TAB, LF, VT, FF, CR, SP and NBSP.
\<close>

definition is_js_space :: "char \<Rightarrow> bool" where
  "is_js_space c = (of_char c \<in> {9, 10, 11, 12, 13, 32, 160 :: nat})"

definition is_digit :: "char \<Rightarrow> bool" where
  "is_digit c = (48 \<le> (of_char c :: nat) \<and> (of_char c :: nat) \<le> 57)"

definition digits_value :: "string \<Rightarrow> int" where
  "digits_value ds = foldl (\<lambda>acc c. 10 * acc + (of_char c - 48)) 0 ds"

definition parseInt10 :: "string \<Rightarrow> jsnum" where
  "parseInt10 s =
     (let s1 = dropWhile is_js_space s;
          neg = (s1 \<noteq> [] \<and> hd s1 = CHR ''-'');
          s2 = (if s1 \<noteq> [] \<and> (hd s1 = CHR ''-'' \<or> hd s1 = CHR ''+'') then tl s1 else s1);
          ds = takeWhile is_digit s2
      in if ds = [] then NaN
         else if digits_value ds \<le> 2 ^ 53
           then Num (if neg then - digits_value ds else digits_value ds)
           else Huge neg)"

text \<open>
  The object \<^verbatim>\<open>out\<close> of \<^verbatim>\<open>parseArgs\<close>. \<^verbatim>\<open>out.dir\<close> is \<^verbatim>\<open>undefined\<close> (here \<open>None\<close>) when
  \<^verbatim>\<open>--dir\<close> is the last token, since \<^verbatim>\<open>args[++i]\<close> then reads past the end.
\<close>

record args_out =
  dir :: "string option"
  prefix :: string
  dry :: bool
  concurrency :: jsnum

definition default_out :: args_out where
  "default_out = \<lparr>dir = Some [], prefix = [], dry = False, concurrency = Num 5\<rparr>"

text \<open>
  The \<^verbatim>\<open>for\<close> loop of \<^verbatim>\<open>parseArgs\<close> over the remaining tokens. A flag that takes a value
  consumes the next token (\<^verbatim>\<open>args[++i]\<close>); \<^verbatim>\<open>x || d\<close> on a string takes \<^verbatim>\<open>d\<close> when
  \<^verbatim>\<open>x\<close> is \<^verbatim>\<open>undefined\<close> or empty.
\<close>

fun scan_args :: "string list \<Rightarrow> args_out \<Rightarrow> args_out" where
  "scan_args [] out = out"
| "scan_args (a # rest) out =
     (if a = ''--dir'' then
        (case rest of
           [] \<Rightarrow> out\<lparr>dir := None\<rparr>
         | v # rest' \<Rightarrow> scan_args rest' (out\<lparr>dir := Some v\<rparr>))
      else if a = ''--prefix'' then
        (case rest of
           [] \<Rightarrow> out\<lparr>prefix := []\<rparr>
         | v # rest' \<Rightarrow> scan_args rest' (out\<lparr>prefix := v\<rparr>))
      else if a = ''--dry'' then scan_args rest (out\<lparr>dry := True\<rparr>)
      else if a = ''--concurrency'' then
        (case rest of
           [] \<Rightarrow> out\<lparr>concurrency := parseInt10 ''5''\<rparr>
         | v # rest' \<Rightarrow>
             scan_args rest' (out\<lparr>concurrency := parseInt10 (if v = [] then ''5'' else v)\<rparr>))
      else scan_args rest out)"

text \<open>
  \<^verbatim>\<open>parseArgs\<close>: after the loop, a missing or empty \<^verbatim>\<open>out.dir\<close> prints the usage line
  and ends the process with status 1 (\<open>Inl\<close>); nothing else is checked.
\<close>

definition usage_line :: string where
  "usage_line = ''Usage: node sync/sync.js --dir \"./folder\" [--prefix \"backup/\"] [--dry] [--concurrency 5]''"

definition parseArgs :: "string list \<Rightarrow> nat + args_out" where
  "parseArgs args =
     (let out = scan_args args default_out
      in if dir out = None \<or> dir out = Some [] then Inl 1 else Inr out)"


section \<open>Bounded Uploader: \<^verbatim>\<open>limitConcurrency\<close>\<close>

subsection \<open>Workers, runners and the shared state\<close>

text \<open>
  One call \<^verbatim>\<open>worker(item)\<close> of an \<^verbatim>\<open>async\<close> function. It runs synchronously up to its
  first \<^verbatim>\<open>await\<close>. \<open>Settled_now evs r\<close>: the call ends without suspending, having
  produced the events \<open>evs\<close>, and its promise is already settled with \<open>r\<close> (\<open>Inl\<close> a
  thrown error, \<open>Inr\<close> the returned value). \<open>Suspends evs1 evs2 r\<close>: the call produces
  \<open>evs1\<close>, suspends on an operation in flight, and when that completes produces
  \<open>evs2\<close> and settles with \<open>r\<close>.
\<close>

datatype ('e, 'b, 'ev) call =
    Settled_now "'ev list" "'e + 'b"
  | Suspends "'ev list" "'ev list" "'e + 'b"

fun first_events :: "('e, 'b, 'ev) call \<Rightarrow> 'ev list" where
  "first_events (Settled_now evs r) = evs"
| "first_events (Suspends evs1 evs2 r) = evs1"

fun later_events :: "('e, 'b, 'ev) call \<Rightarrow> 'ev list" where
  "later_events (Settled_now evs r) = []"
| "later_events (Suspends evs1 evs2 r) = evs2"

fun settles_with :: "('e, 'b, 'ev) call \<Rightarrow> 'e + 'b" where
  "settles_with (Settled_now evs r) = r"
| "settles_with (Suspends evs1 evs2 r) = r"

text \<open>
  A runner is one call of \<^verbatim>\<open>run\<close> (first variant) or of the mapped \<^verbatim>\<open>async\<close>
  arrow function (second variant). It is suspended at \<^verbatim>\<open>await worker(items[i])\<close> with the
  worker's promise still pending (\<open>Pending i\<close>) or already settled, its continuation
  queued (\<open>Ready i\<close>); or its own promise is fulfilled (\<open>Finished\<close>) or rejected.
\<close>

datatype 'e runner = Pending nat | Ready nat | Finished | Rejected 'e

text \<open>What the promise of \<^verbatim>\<open>limitConcurrency\<close> can be rejected with.\<close>

datatype 'e rejection = InvalidArrayLength | Thrown 'e

text \<open>
  The variables shared by the runners: the cursor (\<^verbatim>\<open>nextIndex\<close>, \<^verbatim>\<open>idx\<close>), the array
  \<^verbatim>\<open>results\<close> (\<open>None\<close> is a hole), the runner promises, and the first rejection seen by
  \<^verbatim>\<open>Promise.all\<close>. Two fields observe the run and are not in the source: \<open>claims\<close>
  lists every (runner, index) for which the worker was called, in order, and \<open>trace\<close>
  collects the events of the worker calls.
\<close>

record ('e, 'b, 'ev) pool =
  next_index :: nat
  results :: "'b option list"
  runners :: "'e runner list"
  first_rejection :: "'e rejection option"
  claims :: "(nat \<times> nat) list"
  trace :: "'ev list"

text \<open>\<^verbatim>\<open>a[i] = v\<close> on a JavaScript array: writing at or past the length extends the array, leaving holes.\<close>

definition array_set :: "'b option list \<Rightarrow> nat \<Rightarrow> 'b \<Rightarrow> 'b option list" where
  "array_set a i v =
     (if i < length a then a[i := Some v]
      else a @ replicate (i - length a) None @ [Some v])"

text \<open>
  \<^verbatim>\<open>Math.min(limit, items.length)\<close>, the length \<^verbatim>\<open>Array.from({ length: x }, run)\<close> gives
  (\<^verbatim>\<open>NaN\<close> and negative numbers count as 0), and \<^verbatim>\<open>new Array(x)\<close>, which throws a
  \<^verbatim>\<open>RangeError\<close> unless \<^verbatim>\<open>x\<close> is a non-negative integer. The length of an array is below
  \<^verbatim>\<open>2^32\<close>: the minimum of a number beyond \<^verbatim>\<open>2^53\<close> and a length is the length, that of a
  number beyond \<^verbatim>\<open>-2^53\<close> and a length is the number, and the upper limits of the two
  constructors (\<^verbatim>\<open>2^53 - 1\<close> in \<^verbatim>\<open>ToLength\<close>, \<^verbatim>\<open>2^32\<close> in \<^verbatim>\<open>new Array\<close>) are never met by
  such a minimum.
\<close>

definition math_min :: "jsnum \<Rightarrow> nat \<Rightarrow> jsnum" where
  "math_min limit len =
     (case limit of
        NaN \<Rightarrow> NaN
      | Num c \<Rightarrow> Num (min c (int len))
      | Huge neg \<Rightarrow> if neg then Huge True else Num (int len))"

definition array_from_length :: "jsnum \<Rightarrow> nat" where
  "array_from_length x =
     (case x of
        NaN \<Rightarrow> 0
      | Num c \<Rightarrow> nat c
      | Huge neg \<Rightarrow> if neg then 0 else 2 ^ 53 - 1)"

definition new_array_length :: "jsnum \<Rightarrow> nat option" where
  "new_array_length x =
     (case x of
        NaN \<Rightarrow> None
      | Num c \<Rightarrow> if c < 0 then None else Some (nat c)
      | Huge neg \<Rightarrow> None)"

subsection \<open>The runner bodies\<close>

text \<open>
  \<^verbatim>\<open>worker(items[i])\<close> is called for runner \<open>k\<close>: the call's first events happen, and
  the runner suspends at the \<^verbatim>\<open>await\<close>.
\<close>

definition call_worker ::
  "'a list \<Rightarrow> ('a \<Rightarrow> ('e, 'b, 'ev) call) \<Rightarrow> nat \<Rightarrow> nat \<Rightarrow> ('e, 'b, 'ev) pool
     \<Rightarrow> 'e runner \<times> ('e, 'b, 'ev) pool" where
  "call_worker items worker k i s =
     (let c = worker (items ! i);
          s' = s\<lparr>claims := claims s @ [(k, i)], trace := trace s @ first_events c\<rparr>
      in case c of
           Settled_now evs r \<Rightarrow> (Ready i, s')
         | Suspends evs1 evs2 r \<Rightarrow> (Pending i, s'))"

text \<open>
  First variant, from the head of \<^verbatim>\<open>for (;;)\<close>:
  \<^verbatim>\<open>const i = nextIndex++; if (i >= items.length) break; results[i] = await worker(items[i]);\<close>
\<close>

definition run_body1 ::
  "'a list \<Rightarrow> ('a \<Rightarrow> ('e, 'b, 'ev) call) \<Rightarrow> nat \<Rightarrow> ('e, 'b, 'ev) pool
     \<Rightarrow> 'e runner \<times> ('e, 'b, 'ev) pool" where
  "run_body1 items worker k s =
     (let i = next_index s;
          s' = s\<lparr>next_index := i + 1\<rparr>
      in if i \<ge> length items then (Finished, s')
         else call_worker items worker k i s')"

text \<open>
  Second variant, from the head of the \<^verbatim>\<open>while\<close>:
  \<^verbatim>\<open>while (idx < items.length) { const current = idx++; results[current] = await worker(items[current]); }\<close>
\<close>

definition run_body2 ::
  "'a list \<Rightarrow> ('a \<Rightarrow> ('e, 'b, 'ev) call) \<Rightarrow> nat \<Rightarrow> ('e, 'b, 'ev) pool
     \<Rightarrow> 'e runner \<times> ('e, 'b, 'ev) pool" where
  "run_body2 items worker k s =
     (if next_index s < length items then
        (let current = next_index s;
             s' = s\<lparr>next_index := current + 1\<rparr>
         in call_worker items worker k current s')
      else (Finished, s))"

text \<open>
  Starting a runner: the body runs synchronously to its first \<^verbatim>\<open>await\<close> (or to its
  end), and its promise is the next element of \<^verbatim>\<open>runners\<close>.
\<close>

definition spawn ::
  "(nat \<Rightarrow> ('e, 'b, 'ev) pool \<Rightarrow> 'e runner \<times> ('e, 'b, 'ev) pool)
     \<Rightarrow> ('e, 'b, 'ev) pool \<Rightarrow> ('e, 'b, 'ev) pool" where
  "spawn body s =
     (let (r, s') = body (length (runners s)) s
      in s'\<lparr>runners := runners s' @ [r]\<rparr>)"

text \<open>
  The state when \<^verbatim>\<open>limitConcurrency\<close> reaches \<^verbatim>\<open>await Promise.all(runners)\<close>. The first
  variant pre-sizes \<^verbatim>\<open>results\<close> and builds the runners with \<^verbatim>\<open>Array.from\<close>; the second
  starts from \<^verbatim>\<open>[]\<close> and builds them with \<^verbatim>\<open>new Array(...).fill(null).map(...)\<close>, where
  a \<^verbatim>\<open>RangeError\<close> rejects the whole call before any runner exists.
\<close>

definition launch1 ::
  "'a list \<Rightarrow> jsnum \<Rightarrow> ('a \<Rightarrow> ('e, 'b, 'ev) call) \<Rightarrow> ('e, 'b, 'ev) pool" where
  "launch1 items limit worker =
     ((spawn (run_body1 items worker)) ^^ array_from_length (math_min limit (length items)))
       \<lparr>next_index = 0, results = replicate (length items) None, runners = [],
        first_rejection = None, claims = [], trace = []\<rparr>"

definition launch2 ::
  "'a list \<Rightarrow> jsnum \<Rightarrow> ('a \<Rightarrow> ('e, 'b, 'ev) call) \<Rightarrow> ('e, 'b, 'ev) pool" where
  "launch2 items limit worker =
     (let s0 = \<lparr>next_index = 0, results = [], runners = [],
                first_rejection = None, claims = [], trace = []\<rparr>
      in case new_array_length (math_min limit (length items)) of
           None \<Rightarrow> s0\<lparr>first_rejection := Some InvalidArrayLength\<rparr>
         | Some n \<Rightarrow> ((spawn (run_body2 items worker)) ^^ n) s0)"

subsection \<open>Interleavings\<close>

text \<open>
  After the launch the event loop runs one continuation at a time. \<open>Settle k\<close>: the
  operation runner \<open>k\<close>'s worker call waits for completes; the call produces its later
  events and its promise settles. \<open>Resume k\<close>: runner \<open>k\<close> resumes after its \<^verbatim>\<open>await\<close>;
  a rejected worker promise is thrown out of the runner (there is no \<^verbatim>\<open>try\<close> in it),
  rejecting the runner's promise; otherwise the value is stored in \<^verbatim>\<open>results\<close> and the
  loop goes on to its next iteration. An action that is not enabled leaves the state
  as it is, so a list of actions describes an interleaving.
\<close>

datatype action = Settle nat | Resume nat

definition settle ::
  "'a list \<Rightarrow> ('a \<Rightarrow> ('e, 'b, 'ev) call) \<Rightarrow> nat \<Rightarrow> ('e, 'b, 'ev) pool \<Rightarrow> ('e, 'b, 'ev) pool" where
  "settle items worker k s =
     (if k < length (runners s) then
        (case runners s ! k of
           Pending i \<Rightarrow>
             s\<lparr>runners := (runners s)[k := Ready i],
               trace := trace s @ later_events (worker (items ! i))\<rparr>
         | _ \<Rightarrow> s)
      else s)"

definition resume ::
  "(nat \<Rightarrow> ('e, 'b, 'ev) pool \<Rightarrow> 'e runner \<times> ('e, 'b, 'ev) pool)
     \<Rightarrow> 'a list \<Rightarrow> ('a \<Rightarrow> ('e, 'b, 'ev) call) \<Rightarrow> nat \<Rightarrow> ('e, 'b, 'ev) pool \<Rightarrow> ('e, 'b, 'ev) pool" where
  "resume body items worker k s =
     (if k < length (runners s) then
        (case runners s ! k of
           Ready i \<Rightarrow>
             (case settles_with (worker (items ! i)) of
                Inl e \<Rightarrow>
                  s\<lparr>runners := (runners s)[k := Rejected e],
                    first_rejection :=
                      (case first_rejection s of None \<Rightarrow> Some (Thrown e) | Some x \<Rightarrow> Some x)\<rparr>
              | Inr v \<Rightarrow>
                  (let (r, s') = body k (s\<lparr>results := array_set (results s) i v\<rparr>)
                   in s'\<lparr>runners := (runners s')[k := r]\<rparr>))
         | _ \<Rightarrow> s)
      else s)"

fun step ::
  "(nat \<Rightarrow> ('e, 'b, 'ev) pool \<Rightarrow> 'e runner \<times> ('e, 'b, 'ev) pool)
     \<Rightarrow> 'a list \<Rightarrow> ('a \<Rightarrow> ('e, 'b, 'ev) call) \<Rightarrow> action \<Rightarrow> ('e, 'b, 'ev) pool \<Rightarrow> ('e, 'b, 'ev) pool" where
  "step body items worker (Settle k) s = settle items worker k s"
| "step body items worker (Resume k) s = resume body items worker k s"

definition limitConcurrency1 ::
  "'a list \<Rightarrow> jsnum \<Rightarrow> ('a \<Rightarrow> ('e, 'b, 'ev) call) \<Rightarrow> action list \<Rightarrow> ('e, 'b, 'ev) pool" where
  "limitConcurrency1 items limit worker sched =
     fold (step (run_body1 items worker) items worker) sched (launch1 items limit worker)"

definition limitConcurrency2 ::
  "'a list \<Rightarrow> jsnum \<Rightarrow> ('a \<Rightarrow> ('e, 'b, 'ev) call) \<Rightarrow> action list \<Rightarrow> ('e, 'b, 'ev) pool" where
  "limitConcurrency2 items limit worker sched =
     fold (step (run_body2 items worker) items worker) sched (launch2 items limit worker)"

text \<open>
  What the caller's \<^verbatim>\<open>await limitConcurrency(...)\<close> sees: the first rejection, as
  \<^verbatim>\<open>Promise.all\<close> passes it on; the array \<^verbatim>\<open>results\<close> once every runner is fulfilled;
  nothing (\<open>None\<close>) while a runner is still suspended.
\<close>

definition returned :: "('e, 'b, 'ev) pool \<Rightarrow> ('e rejection + 'b option list) option" where
  "returned s =
     (case first_rejection s of
        Some e \<Rightarrow> Some (Inl e)
      | None \<Rightarrow> if list_all (\<lambda>r. r = Finished) (runners s) then Some (Inr (results s)) else None)"

text \<open>An action is enabled when it changes the state; a state is quiescent when none is.\<close>

fun enabled :: "action \<Rightarrow> ('e, 'b, 'ev) pool \<Rightarrow> bool" where
  "enabled (Settle k) s =
     (k < length (runners s) \<and> (case runners s ! k of Pending i \<Rightarrow> True | _ \<Rightarrow> False))"
| "enabled (Resume k) s =
     (k < length (runners s) \<and> (case runners s ! k of Ready i \<Rightarrow> True | _ \<Rightarrow> False))"

fun is_active :: "'e runner \<Rightarrow> bool" where
  "is_active (Pending i) = True"
| "is_active (Ready i) = True"
| "is_active Finished = False"
| "is_active (Rejected e) = False"

definition quiescent :: "('e, 'b, 'ev) pool \<Rightarrow> bool" where
  "quiescent s = list_all (\<lambda>r. \<not> is_active r) (runners s)"

section \<open>Content-Type Resolver\<close>

text \<open>
  \<^verbatim>\<open>x || d\<close> where \<^verbatim>\<open>x\<close> is a string or a falsy non-string (\<^verbatim>\<open>false\<close>, \<^verbatim>\<open>undefined\<close>,
  here \<open>None\<close>): the empty string is falsy too.
\<close>

definition js_or :: "string option \<Rightarrow> string \<Rightarrow> string" where
  "js_or x d = (case x of None \<Rightarrow> d | Some s \<Rightarrow> if s = [] then d else s)"

text \<open>
  \<^verbatim>\<open>mime.lookup(rel) || 'application/octet-stream'\<close>. The function \<^verbatim>\<open>mime.lookup\<close>
  belongs to the package \<^verbatim>\<open>mime-types\<close> and is a parameter here.
\<close>

definition content_type :: "(string \<Rightarrow> string option) \<Rightarrow> string \<Rightarrow> string" where
  "content_type lookup rel = js_or (lookup rel) ''application/octet-stream''"

text \<open>
  Modelled from the spec: \<^verbatim>\<open>mime.lookup\<close> and its table are not among the sources. The
  specification says that the resolver "looks up a MIME type by the file's extension
  using a static extension-to-type table". The extension is the text after the last
  dot of the name, absent when the name has no dot.
\<close>

definition extension_of :: "string \<Rightarrow> string option" where
  "extension_of name =
     (if CHR ''.'' \<in> set name
      then Some (rev (takeWhile (\<lambda>c. c \<noteq> CHR ''.'') (rev name)))
      else None)"

text \<open>
  Modelled from the spec: the lookup of \<^verbatim>\<open>mime.lookup\<close>, missing from the sources, as
  the specification words it: the type the table gives for the name's extension, and
  nothing when the extension is absent or not in the table.
\<close>

definition table_lookup :: "(string \<times> string) list \<Rightarrow> string \<Rightarrow> string option" where
  "table_lookup table name =
     (case extension_of name of None \<Rightarrow> None | Some e \<Rightarrow> map_of table e)"

section \<open>The upload callback and \<^verbatim>\<open>main\<close>\<close>

text \<open>What a run does that can be observed from outside: console lines and store requests.\<close>

datatype failure = FileReadError string | TransferError string | EnumerationError

datatype event =
    ConsoleLog string
  | ConsoleError string
  | ConsoleErrorThrown "failure rejection"
  | PutObject string string string string

text \<open>
  What the scripts take from their surroundings: the two environment variables
  (\<open>None\<close> is \<^verbatim>\<open>undefined\<close>), \<^verbatim>\<open>path.resolve(process.cwd(), dir)\<close>, \<^verbatim>\<open>path.join\<close>, the
  file enumeration of \<^verbatim>\<open>fast-glob\<close> (\<open>None\<close>: its promise is rejected),
  \<^verbatim>\<open>fs.readFileSync\<close> (\<open>None\<close>: it throws), whether \<^verbatim>\<open>s3.send\<close> of a \<^verbatim>\<open>PutObjectCommand\<close>
  with the given bucket, key, body and content type is fulfilled, and \<^verbatim>\<open>mime.lookup\<close>.
\<close>

record env =
  S3_BUCKET :: "string option"
  AWS_REGION :: "string option"
  path_resolve :: "string \<Rightarrow> string"
  path_join :: "string \<Rightarrow> string \<Rightarrow> string"
  fast_glob :: "string \<Rightarrow> string list option"
  readFileSync :: "string \<Rightarrow> string option"
  s3_send :: "string \<Rightarrow> string \<Rightarrow> string \<Rightarrow> string \<Rightarrow> bool"
  mime_lookup :: "string \<Rightarrow> string option"

text \<open>A non-negative integer in a template literal: its decimal digits.\<close>

fun show_nat :: "nat \<Rightarrow> string" where
  "show_nat n =
     (if n < 10 then [char_of (48 + n)]
      else show_nat (n div 10) @ [char_of (48 + n mod 10)])"

declare show_nat.simps [simp del]

text \<open>The line \<^verbatim>\<open>`[dry] PUT ${key} (${data.length} bytes)`\<close> of the dry branch.\<close>

definition dry_line :: "string \<Rightarrow> string \<Rightarrow> string" where
  "dry_line key data = ''[dry] PUT '' @ key @ '' ('' @ show_nat (length data) @ '' bytes)''"

text \<open>
  The callback \<^verbatim>\<open>async (rel) => { ... }\<close> given to \<^verbatim>\<open>limitConcurrency\<close>. A throwing
  \<^verbatim>\<open>readFileSync\<close> rejects the call's promise before anything else happens. In dry
  mode the call logs one line and returns without suspending. Otherwise it sends the
  \<^verbatim>\<open>PutObjectCommand\<close> and suspends; a fulfilled send is followed by the line
  \<^verbatim>\<open>PUT key\<close>, a rejected one rejects the call. The key computation is a parameter,
  the only place where the two variants' callbacks differ.
\<close>

definition upload ::
  "(string \<Rightarrow> string \<Rightarrow> string) \<Rightarrow> env \<Rightarrow> string \<Rightarrow> string \<Rightarrow> string \<Rightarrow> bool \<Rightarrow> string
     \<Rightarrow> (failure, unit, event) call" where
  "upload key_of e bucket absDir pre is_dry rel =
     (let abs = path_join e absDir rel
      in case readFileSync e abs of
           None \<Rightarrow> Settled_now [] (Inl (FileReadError abs))
         | Some data \<Rightarrow>
             (let key = key_of pre rel;
                  contentType = content_type (mime_lookup e) rel
              in if is_dry then
                   Settled_now [ConsoleLog (dry_line key data)] (Inr ())
                 else if s3_send e bucket key data contentType then
                   Suspends [PutObject bucket key data contentType] [ConsoleLog (''PUT '' @ key)] (Inr ())
                 else
                   Suspends [PutObject bucket key data contentType] [] (Inl (TransferError key))))"

text \<open>
  \<^verbatim>\<open>main\<close> with the handler \<^verbatim>\<open>main().catch(...)\<close>, for a given interleaving of the
  runners: the console lines and store requests, and the exit status (\<open>None\<close> while
  runners are still suspended). A value that is \<^verbatim>\<open>undefined\<close> or empty is falsy. The
  status is 1 after the usage line, after a missing variable and after any rejection,
  0 when \<^verbatim>\<open>main\<close> returns. The process is taken to end where the interleaving ends:
  \<^verbatim>\<open>process.exit(1)\<close> follows the first rejection, and the runners still suspended then
  are cut off; interleavings that go on after a rejection are a superset of what can
  happen before the exit.
\<close>

record process =
  printed :: "event list"
  exit_status :: "nat option"

definition falsy :: "string option \<Rightarrow> bool" where
  "falsy x = (x = None \<or> x = Some [])"

definition main_with ::
  "(string list \<Rightarrow> jsnum \<Rightarrow> (string \<Rightarrow> (failure, unit, event) call) \<Rightarrow> action list
      \<Rightarrow> (failure, unit, event) pool)
     \<Rightarrow> (string \<Rightarrow> string \<Rightarrow> string) \<Rightarrow> env \<Rightarrow> string list \<Rightarrow> action list \<Rightarrow> process" where
  "main_with limit_concurrency key_of e argv sched =
     (case parseArgs argv of
        Inl st \<Rightarrow> \<lparr>printed = [ConsoleError usage_line], exit_status = Some st\<rparr>
      | Inr out \<Rightarrow>
          (case (S3_BUCKET e, AWS_REGION e, dir out) of
             (Some bucket, Some region, Some d) \<Rightarrow>
               (if bucket = [] \<or> region = [] then
                  \<lparr>printed = [ConsoleError ''Missing S3_BUCKET or AWS_REGION in environment.''],
                   exit_status = Some 1\<rparr>
                else
                  (let absDir = path_resolve e d
                   in case fast_glob e absDir of
                        None \<Rightarrow>
                          \<lparr>printed = [ConsoleErrorThrown (Thrown EnumerationError)],
                           exit_status = Some 1\<rparr>
                      | Some entries \<Rightarrow>
                          (if entries = [] then
                             \<lparr>printed = [ConsoleLog ''No files found.''], exit_status = Some 0\<rparr>
                           else
                             (let s = limit_concurrency entries (concurrency out)
                                        (upload key_of e bucket absDir (prefix out) (dry out)) sched;
                                  first_line =
                                    ConsoleLog (''Uploading '' @ show_nat (length entries) @
                                      '' files to s3://'' @ bucket @ ''/'' @ prefix out)
                              in case returned s of
                                   None \<Rightarrow>
                                     \<lparr>printed = first_line # trace s, exit_status = None\<rparr>
                                 | Some (Inl err) \<Rightarrow>
                                     \<lparr>printed = first_line # trace s @ [ConsoleErrorThrown err],
                                      exit_status = Some 1\<rparr>
                                 | Some (Inr rs) \<Rightarrow>
                                     \<lparr>printed = first_line # trace s @ [ConsoleLog ''Done.''],
                                      exit_status = Some 0\<rparr>))))
           | _ \<Rightarrow>
               \<lparr>printed = [ConsoleError ''Missing S3_BUCKET or AWS_REGION in environment.''],
                exit_status = Some 1\<rparr>))"

definition main1 :: "env \<Rightarrow> string list \<Rightarrow> action list \<Rightarrow> process" where
  "main1 = main_with limitConcurrency1 key_split_join"


text \<open>
  A small concrete world for examples: bucket and region are set, the directory holds
  the three files \<^verbatim>\<open>a.txt\<close>, \<^verbatim>\<open>b.txt\<close> and \<^verbatim>\<open>c.txt\<close> when it is enumerated, every
  send is fulfilled, and the table of types knows \<^verbatim>\<open>jpg\<close> only. In \<open>example_env\<close>
  every file can be read; in \<open>deleted_env\<close> the file \<^verbatim>\<open>b.txt\<close> has been deleted after
  the enumeration, so reading it throws.
\<close>

definition example_env :: env where
  "example_env =
     \<lparr>S3_BUCKET = Some ''bucket'', AWS_REGION = Some ''eu-west-1'',
      path_resolve = (\<lambda>d. d),
      path_join = (\<lambda>a b. a @ ''/'' @ b),
      fast_glob = (\<lambda>d. Some [''a.txt'', ''b.txt'', ''c.txt'']),
      readFileSync = (\<lambda>p. Some ''data''),
      s3_send = (\<lambda>bucket key body ct. True),
      mime_lookup = table_lookup [(''jpg'', ''image/jpeg'')]\<rparr>"

definition deleted_env :: env where
  "deleted_env =
     example_env\<lparr>readFileSync := (\<lambda>p. if p = ''dir/b.txt'' then None else Some ''data'')\<rparr>"


fun is_dry_line :: "event \<Rightarrow> bool" where
  "is_dry_line (ConsoleLog l) = (take 10 l = ''[dry] PUT '')"
| "is_dry_line (ConsoleError l) = False"
| "is_dry_line (ConsoleErrorThrown x) = False"
| "is_dry_line (PutObject bucket key body ct) = False"


section \<open>Reading the shared state\<close>

text \<open>Reading \<^verbatim>\<open>a[i]\<close>: a hole and an index past the end both give \<^verbatim>\<open>undefined\<close>.\<close>

definition slot :: "'b option list \<Rightarrow> nat \<Rightarrow> 'b option" where
  "slot a i = (if i < length a then a ! i else None)"

text \<open>The index a suspended runner is working on.\<close>

fun holds :: "'e runner \<Rightarrow> nat option" where
  "holds (Pending i) = Some i"
| "holds (Ready i) = Some i"
| "holds Finished = None"
| "holds (Rejected e) = None"

text \<open>
  What the two loop heads have in common. While the cursor is below the number of
  items, the body claims the cursor's index, advances the cursor by one and calls the
  worker; otherwise the runner finishes, and the cursor does not go back.
\<close>

definition body_like ::
  "'a list \<Rightarrow> ('a \<Rightarrow> ('e, 'b, 'ev) call)
     \<Rightarrow> (nat \<Rightarrow> ('e, 'b, 'ev) pool \<Rightarrow> 'e runner \<times> ('e, 'b, 'ev) pool) \<Rightarrow> bool" where
  "body_like items worker body =
     (\<forall>k s.
        (next_index s < length items \<longrightarrow>
           body k s = call_worker items worker k (next_index s) (s\<lparr>next_index := Suc (next_index s)\<rparr>))
      \<and> (\<not> next_index s < length items \<longrightarrow>
           (\<exists>m \<ge> next_index s. body k s = (Finished, s\<lparr>next_index := m\<rparr>))))"

text \<open>
  The invariant of a run over \<open>items\<close>. The indices claimed so far are exactly those
  below the cursor, in order. A suspended runner works on a claimed index, and no two
  runners on the same. Every claimed index is either still held by a runner, or its
  worker call was fulfilled and its value is in \<^verbatim>\<open>results\<close>, or its call was rejected
  and so is a runner. \<^verbatim>\<open>results\<close> holds values of fulfilled calls only and is no longer
  than \<open>items\<close>. A rejected runner was rejected by the call for a claimed index, and
  \<^verbatim>\<open>Promise.all\<close> has seen a rejection exactly when a runner is rejected. A runner
  finishes only once the cursor has reached the end.
\<close>

definition pool_inv :: "'a list \<Rightarrow> ('a \<Rightarrow> ('e, 'b, 'ev) call) \<Rightarrow> ('e, 'b, 'ev) pool \<Rightarrow> bool" where
  "pool_inv items worker s =
     (let L = length items; c = min (next_index s) L; rs = runners s
      in map snd (claims s) = [0..<c]
       \<and> (\<forall>k < length rs. \<forall>i. holds (rs ! k) = Some i \<longrightarrow> i < c)
       \<and> (\<forall>k < length rs. \<forall>k' < length rs. \<forall>i.
             holds (rs ! k) = Some i \<and> holds (rs ! k') = Some i \<longrightarrow> k = k')
       \<and> (\<forall>i < c. (\<exists>k < length rs. holds (rs ! k) = Some i)
              \<or> (case settles_with (worker (items ! i)) of
                    Inr v \<Rightarrow> slot (results s) i = Some v
                  | Inl e \<Rightarrow> \<exists>k < length rs. rs ! k = Rejected e))
       \<and> (\<forall>i v. slot (results s) i = Some v \<longrightarrow>
              i < c \<and> settles_with (worker (items ! i)) = Inr v)
       \<and> length (results s) \<le> L
       \<and> (\<forall>k < length rs. \<forall>e. rs ! k = Rejected e \<longrightarrow>
              (\<exists>i < c. settles_with (worker (items ! i)) = Inl e))
       \<and> (\<forall>x. first_rejection s = Some x \<longrightarrow>
              (\<exists>k < length rs. \<exists>e. x = Thrown e \<and> rs ! k = Rejected e))
       \<and> ((\<exists>k < length rs. \<exists>e. rs ! k = Rejected e) \<longrightarrow> first_rejection s \<noteq> None)
       \<and> ((\<exists>k < length rs. rs ! k = Finished) \<longrightarrow> L \<le> next_index s)
       \<and> (\<forall>k i. (k, i) \<in> set (claims s) \<longrightarrow> k < length rs))"

text \<open>
  A measure of the work left: two units for every index not yet claimed and for every
  pending worker call, one for every runner whose continuation is queued.
\<close>

fun weight :: "'e runner \<Rightarrow> nat" where
  "weight (Pending i) = 2"
| "weight (Ready i) = 1"
| "weight Finished = 0"
| "weight (Rejected e) = 0"

definition work_left :: "'a list \<Rightarrow> ('e, 'b, 'ev) pool \<Rightarrow> nat" where
  "work_left items s =
     2 * (length items - min (next_index s) (length items)) + sum_list (map weight (runners s))"

text \<open>The number of actions of an interleaving that were enabled when their turn came.\<close>

fun effective ::
  "(action \<Rightarrow> ('e, 'b, 'ev) pool \<Rightarrow> ('e, 'b, 'ev) pool) \<Rightarrow> action list \<Rightarrow> ('e, 'b, 'ev) pool \<Rightarrow> nat" where
  "effective f [] s = 0"
| "effective f (a # as) s = (if enabled a s then 1 else 0) + effective f as (f a s)"



text \<open>The value of a fulfilled worker call; nothing for a rejected one.\<close>

fun fulfilled :: "'e + 'b \<Rightarrow> 'b option" where
  "fulfilled (Inr v) = Some v"
| "fulfilled (Inl e) = None"

definition succeeds :: "('a \<Rightarrow> ('e, 'b, 'ev) call) \<Rightarrow> 'a \<Rightarrow> bool" where
  "succeeds worker x = (case settles_with (worker x) of Inr v \<Rightarrow> True | Inl e \<Rightarrow> False)"

text \<open>
  Claims are made in the order of the indices, each by a runner that exists: the
  \<open>n\<close>-th claim of a run is the index \<open>n\<close>.
\<close>

definition claimed_in_order :: "('e, 'b, 'ev) pool \<Rightarrow> bool" where
  "claimed_in_order s =
     (map snd (claims s) = [0..<length (claims s)]
      \<and> list_all (\<lambda>p. fst p < length (runners s)) (claims s))"

text \<open>
  A run is complete when every index of \<open>items\<close> has been claimed, once, every worker
  call was fulfilled, \<^verbatim>\<open>results\<close> holds the value of the call for \<open>items ! i\<close> at every
  index \<open>i\<close>, and \<^verbatim>\<open>limitConcurrency\<close> returns that array.
\<close>

definition complete ::
  "'a list \<Rightarrow> ('a \<Rightarrow> ('e, 'b, 'ev) call) \<Rightarrow> ('e, 'b, 'ev) pool \<Rightarrow> bool" where
  "complete items worker s =
     (map snd (claims s) = [0..<length items]
      \<and> list_all (succeeds worker) items
      \<and> results s = map (\<lambda>x. fulfilled (settles_with (worker x))) items
      \<and> returned s = Some (Inr (results s)))"

text \<open>
  Two states of the two variants look the same from outside: same runners, same
  claims, same events, same rejection, the same number of indices claimed, and the
  same value or hole at every index of \<^verbatim>\<open>results\<close>. The cursors may differ past the end
  (the first variant keeps counting) and the arrays in their lengths.
\<close>

definition same_view :: "nat \<Rightarrow> ('e, 'b, 'ev) pool \<Rightarrow> ('e, 'b, 'ev) pool \<Rightarrow> bool" where
  "same_view L s1 s2 =
     (runners s1 = runners s2 \<and> claims s1 = claims s2 \<and> trace s1 = trace s2
      \<and> first_rejection s1 = first_rejection s2
      \<and> min (next_index s1) L = min (next_index s2) L
      \<and> (\<forall>i. slot (results s1) i = slot (results s2) i))"


section \<open>Properties of the Key Mapper\<close>

lemma replace_trim_False:
  "replace_trim False s = rev (dropWhile (\<lambda>x. x = slash) (rev s))"
proof (induction s)
  case Nil
  then show ?case by simp
next
  case (Cons c cs)
  show ?case
  proof (cases "c = slash \<and> list_all (\<lambda>x. x = slash) cs")
    case True
    then show ?thesis by (simp add: dropWhile_append list_all_iff)
  next
    case False
    then show ?thesis using Cons by (auto simp: dropWhile_append list_all_iff)
  qed
qed

lemma replace_trim_True: "replace_trim True p = strip_slashes p"
  by (cases p) (auto simp: strip_slashes_def replace_trim_False dropWhile_append)

lemma split_on_nonempty: "split_on sep s \<noteq> []"
  by (induction s) (auto split: list.splits)

lemma join_split: "join_with slash (split_on backslash rel) = replace_backslashes rel"
proof (induction rel)
  case Nil
  then show ?case by (simp add: replace_backslashes_def)
next
  case (Cons c cs)
  obtain p ps where sp: "split_on backslash cs = p # ps"
    using split_on_nonempty [of backslash cs] by (cases "split_on backslash cs") auto
  show ?case using Cons sp by (cases ps) (auto simp: replace_backslashes_def)
qed

lemma key_variants_agree: "key_split_join pre rel = key_replace pre rel"
  by (simp add: key_split_join_def key_replace_def join_split)

lemma key_replace_eq:
  "key_replace pre rel =
     (if pre = [] then replace_backslashes rel
      else strip_slashes pre @ [slash] @ replace_backslashes rel)"
  by (simp add: key_replace_def replace_trim_True)

lemma not_begins_with_dropWhile:
  "\<not> begins_with slash (dropWhile (\<lambda>x. x = slash) t)"
  by (induction t) (auto simp: begins_with_def)

lemma not_ends_with_rstrip:
  "\<not> ends_with slash (rev (dropWhile (\<lambda>x. x = slash) (rev s)))"
  by (simp add: ends_with_def not_begins_with_dropWhile)

lemma begins_with_rstrip:
  assumes "\<not> begins_with slash s"
  shows "\<not> begins_with slash (rev (dropWhile (\<lambda>x. x = slash) (rev s)))"
proof -
  define d where "d = rev (dropWhile (\<lambda>x. x = slash) (rev s))"
  have "rev s = takeWhile (\<lambda>x. x = slash) (rev s) @ dropWhile (\<lambda>x. x = slash) (rev s)"
    by simp
  then have "s = d @ rev (takeWhile (\<lambda>x. x = slash) (rev s))"
    unfolding d_def by (metis rev_append rev_rev_ident)
  then obtain t where s: "s = d @ t" ..
  have "\<not> begins_with slash d"
  proof (cases d)
    case Nil
    then show ?thesis by (simp add: begins_with_def)
  next
    case (Cons x xs)
    with s have "s = x # xs @ t" by simp
    with assms have "x \<noteq> slash" by (simp add: begins_with_def)
    with Cons show ?thesis by (simp add: begins_with_def)
  qed
  then show ?thesis by (simp add: d_def)
qed

lemma strip_slashes_clean:
  "\<not> begins_with slash (strip_slashes X) \<and> \<not> ends_with slash (strip_slashes X)"
  unfolding strip_slashes_def
  using begins_with_rstrip not_ends_with_rstrip not_begins_with_dropWhile by blast

lemma strip_slashes_nonempty:
  assumes "\<exists>c \<in> set X. c \<noteq> slash"
  shows "strip_slashes X \<noteq> []"
proof -
  from assms have a: "dropWhile (\<lambda>x. x = slash) X \<noteq> []"
    by (simp add: dropWhile_eq_Nil_conv)
  have "\<exists>c \<in> set (dropWhile (\<lambda>x. x = slash) X). c \<noteq> slash"
    using a hd_dropWhile [of "\<lambda>x. x = slash" X] hd_in_set by blast
  then have "dropWhile (\<lambda>x. x = slash) (rev (dropWhile (\<lambda>x. x = slash) X)) \<noteq> []"
    by (simp add: dropWhile_eq_Nil_conv)
  then show ?thesis by (simp add: strip_slashes_def)
qed

lemma begins_with_replace:
  "\<not> begins_with slash P \<Longrightarrow> \<not> begins_with backslash P
     \<Longrightarrow> \<not> begins_with slash (replace_backslashes P)"
  by (cases P) (auto simp: begins_with_def replace_backslashes_def)

lemma begins_with_append: "s \<noteq> [] \<Longrightarrow> begins_with c (s @ t) = begins_with c s"
  by (cases s) (auto simp: begins_with_def)

text \<open>
  C3. For every relative path and every prefix, the key computed by either variant is:
  the path with every backslash replaced by a slash, preceded, when the prefix is not
  empty, by the prefix stripped of all its leading and trailing slashes and one slash.
  The prefix \<^verbatim>\<open>backup/\<close> and the path \<^verbatim>\<open>sub\b.jpg\<close> give \<^verbatim>\<open>backup/sub/b.jpg\<close>. Both
  functions are total.
\<close>

theorem key_mapper_computes:
  "key_split_join pre rel =
     (if pre = [] then replace_backslashes rel
      else strip_slashes pre @ [slash] @ replace_backslashes rel)
   \<and> key_replace pre rel =
     (if pre = [] then replace_backslashes rel
      else strip_slashes pre @ [slash] @ replace_backslashes rel)
   \<and> key_split_join ''backup/'' (''sub'' @ [backslash] @ ''b.jpg'') = ''backup/sub/b.jpg''
   \<and> key_replace ''backup/'' (''sub'' @ [backslash] @ ''b.jpg'') = ''backup/sub/b.jpg''"
proof -
  have ex: "key_replace ''backup/'' (''sub'' @ [backslash] @ ''b.jpg'') = ''backup/sub/b.jpg''"
    by (simp add: key_replace_def replace_backslashes_def slash_def backslash_def)
  show ?thesis
    using ex key_replace_eq [of pre rel] by (simp add: key_variants_agree)
qed

text \<open>C3 on a prefix with slashes on both sides, and on the empty prefix.\<close>

theorem key_mapper_computes_witness:
  "key_split_join ''/photos//'' (''a'' @ [backslash] @ ''b'') = ''photos/a/b''
   \<and> key_replace [] (''a'' @ [backslash] @ ''b'') = ''a/b''"
  using key_mapper_computes [of "''/photos//''" "''a'' @ [backslash] @ ''b''"]
    key_mapper_computes [of "[]" "''a'' @ [backslash] @ ''b''"]
  by (simp add: strip_slashes_def replace_backslashes_def slash_def backslash_def)

text \<open>
  C4, as the code has it. With the empty prefix the key is the path with its
  backslashes replaced. For a prefix that has a character other than a slash, the key
  does not begin with a slash, the trimmed prefix before the joining slash does not end
  with a slash, and for a path that begins with neither a slash nor a backslash the
  part after the joining slash does not begin with a slash.
\<close>

theorem key_mapper_join_clean:
  "key_replace [] P = replace_backslashes P
   \<and> key_split_join [] P = replace_backslashes P
   \<and> ((\<exists>c \<in> set X. c \<noteq> slash) \<longrightarrow>
        key_replace X P = strip_slashes X @ [slash] @ replace_backslashes P
      \<and> key_split_join X P = strip_slashes X @ [slash] @ replace_backslashes P
      \<and> \<not> begins_with slash (key_replace X P)
      \<and> \<not> begins_with slash (key_split_join X P)
      \<and> \<not> ends_with slash (strip_slashes X)
      \<and> (\<not> begins_with slash P \<and> \<not> begins_with backslash P
            \<longrightarrow> \<not> begins_with slash (replace_backslashes P)))"
proof -
  have a: "key_replace [] P = replace_backslashes P"
    by (simp add: key_replace_eq)
  have b: "key_replace X P = strip_slashes X @ [slash] @ replace_backslashes P
      \<and> \<not> begins_with slash (key_replace X P)"
    if h: "\<exists>c \<in> set X. c \<noteq> slash"
  proof -
    from h have ne: "X \<noteq> []" by auto
    then have k: "key_replace X P = strip_slashes X @ [slash] @ replace_backslashes P"
      by (simp add: key_replace_eq)
    have "\<not> begins_with slash (strip_slashes X @ [slash] @ replace_backslashes P)"
      using strip_slashes_nonempty [OF h] strip_slashes_clean [of X]
      by (simp add: begins_with_append)
    with k show ?thesis by simp
  qed
  have c: "(\<exists>c \<in> set X. c \<noteq> slash) \<longrightarrow>
        key_replace X P = strip_slashes X @ [slash] @ replace_backslashes P
      \<and> key_split_join X P = strip_slashes X @ [slash] @ replace_backslashes P
      \<and> \<not> begins_with slash (key_replace X P)
      \<and> \<not> begins_with slash (key_split_join X P)"
    using b by (simp only: key_variants_agree) blast
  have d: "\<not> ends_with slash (strip_slashes X)"
    using strip_slashes_clean [of X] by simp
  have e: "\<not> begins_with slash P \<and> \<not> begins_with backslash P
            \<longrightarrow> \<not> begins_with slash (replace_backslashes P)"
    using begins_with_replace [of P] by blast
  from a have a': "key_split_join [] P = replace_backslashes P"
    by (simp only: key_variants_agree)
  show ?thesis
    using a a' c d e by blast
qed

text \<open>C4, as the code has it, on a prefix with slashes on both sides.\<close>

theorem key_mapper_join_clean_witness:
  "key_replace ''/photos//'' ''a/b.txt'' = ''photos/a/b.txt''
   \<and> \<not> begins_with slash (key_split_join ''/photos//'' ''a/b.txt'')
   \<and> \<not> begins_with slash (replace_backslashes ''a/b.txt'')"
proof -
  have h: "\<exists>c \<in> set ''/photos//''. c \<noteq> slash"
    by (simp add: slash_def)
  have p: "\<not> begins_with slash ''a/b.txt'' \<and> \<not> begins_with backslash ''a/b.txt''"
    by (simp add: begins_with_def slash_def backslash_def)
  have s: "strip_slashes ''/photos//'' = ''photos''"
    by (simp add: strip_slashes_def slash_def)
  have r: "replace_backslashes ''a/b.txt'' = ''a/b.txt''"
    by (simp add: replace_backslashes_def slash_def backslash_def)
  have "key_replace ''/photos//'' ''a/b.txt'' =
          strip_slashes ''/photos//'' @ [slash] @ replace_backslashes ''a/b.txt''
        \<and> \<not> begins_with slash (key_split_join ''/photos//'' ''a/b.txt'')
        \<and> \<not> begins_with slash (replace_backslashes ''a/b.txt'')"
    using key_mapper_join_clean [of "''a/b.txt''" "''/photos//''"] h p by blast
  then show ?thesis
    by (simp add: s r slash_def)
qed

text \<open>
  C4 as stated fails: with the prefix \<^verbatim>\<open>/\<close> the trimmed prefix is empty, the joining
  slash is still added, and the key of \<^verbatim>\<open>a.txt\<close> is \<^verbatim>\<open>/a.txt\<close>. With the empty prefix,
  a path that begins with a backslash gives a key that begins with a slash.
\<close>

theorem key_mapper_leading_slash_counterexample:
  "key_replace ''/'' ''a.txt'' = ''/a.txt''
   \<and> key_split_join ''/'' ''a.txt'' = ''/a.txt''
   \<and> begins_with slash (key_replace ''/'' ''a.txt'')
   \<and> key_replace [] [backslash, CHR ''a''] = ''/a''
   \<and> key_split_join [] [backslash, CHR ''a''] = ''/a''"
  by (simp add: key_replace_def key_split_join_def replace_backslashes_def
      begins_with_def slash_def backslash_def)

section \<open>Properties of \<^verbatim>\<open>parseArgs\<close>\<close>

lemma is_digit_char_of: "k < 10 \<Longrightarrow> is_digit (char_of (48 + k :: nat))"
  by (simp add: is_digit_def)

lemma digit_val: "k < 10 \<Longrightarrow> (of_char (char_of (48 + k :: nat)) :: int) = 48 + int k"
proof -
  assume k: "k < 10"
  have "(of_char (char_of (48 + k)) :: int) = int (of_char (char_of (48 + k)))"
    by (rule of_nat_of_char [symmetric])
  also have "\<dots> = int (48 + k)" using k by simp
  finally show ?thesis by simp
qed

lemma digit_chars:
  "char_of (48::nat) = CHR ''0''" "char_of (49::nat) = CHR ''1''" "char_of (50::nat) = CHR ''2''"
  "char_of (51::nat) = CHR ''3''" "char_of (52::nat) = CHR ''4''" "char_of (53::nat) = CHR ''5''"
  "char_of (54::nat) = CHR ''6''" "char_of (55::nat) = CHR ''7''" "char_of (56::nat) = CHR ''8''"
  "char_of (57::nat) = CHR ''9''"
  by code_simp+

lemma show_nat_digits: "show_nat n \<noteq> [] \<and> list_all is_digit (show_nat n)"
proof (induction n rule: show_nat.induct)
  case (1 n)
  show ?case
  proof (cases "n < 10")
    case True
    then show ?thesis by (simp add: show_nat.simps [of n] is_digit_char_of)
  next
    case False
    then show ?thesis using 1 by (simp add: show_nat.simps [of n] is_digit_char_of)
  qed
qed

lemma digits_value_snoc: "digits_value (ds @ [c]) = 10 * digits_value ds + (of_char c - 48)"
  by (simp add: digits_value_def)

lemma digits_value_show_nat: "digits_value (show_nat n) = int n"
proof (induction n rule: show_nat.induct)
  case (1 n)
  show ?case
  proof (cases "n < 10")
    case True
    then show ?thesis by (simp add: show_nat.simps [of n] digits_value_def digit_val)
  next
    case False
    then have "digits_value (show_nat n) = 10 * int (n div 10) + int (n mod 10)"
      using 1 by (simp add: show_nat.simps [of n] digits_value_snoc digit_val)
    then show ?thesis by presburger
  qed
qed

lemma takeWhile_all: "list_all P xs \<Longrightarrow> takeWhile P xs = xs"
  by (induction xs) auto

lemma parseInt10_minus_show_nat:
  "parseInt10 (CHR ''-'' # show_nat n) = (if int n \<le> 2 ^ 53 then Num (- int n) else Huge True)"
proof -
  have t: "takeWhile is_digit (show_nat n) = show_nat n"
    using show_nat_digits [of n] by (simp add: takeWhile_all)
  have sp: "\<not> is_js_space CHR ''-''" by (simp add: is_js_space_def)
  have ne: "show_nat n \<noteq> []" using show_nat_digits [of n] by simp
  show ?thesis
    by (simp add: parseInt10_def Let_def t sp ne digits_value_show_nat)
qed

lemma parseArgs_dir_concurrency:
  "d \<noteq> [] \<Longrightarrow> parseArgs [''--dir'', d, ''--concurrency'', t] =
     Inr \<lparr>dir = Some d, prefix = [], dry = False,
          concurrency = parseInt10 (if t = [] then ''5'' else t)\<rparr>"
  by (simp add: parseArgs_def default_out_def)

text \<open>
  C8, as the code has it. \<^verbatim>\<open>parseArgs\<close> ends the process, with status 1, only when
  the directory is missing or empty. The concurrency is not checked: for every
  non-empty directory \<open>d\<close> and every token \<open>t\<close> the command line
  \<^verbatim>\<open>--dir d --concurrency t\<close> is accepted with the concurrency \<^verbatim>\<open>parseInt(t || '5', 10)\<close>.
  So every integer \<open>- n\<close> with \<open>n \<le> 2^53\<close> is accepted as a concurrency, written as the
  token \<^verbatim>\<open>-n\<close> in decimal; a longer token \<^verbatim>\<open>-n\<close> is accepted as well, with a
  concurrency below \<open>- 2^53\<close> that need not be \<open>- n\<close>.
\<close>

theorem parseArgs_checks_only_dir:
  "(d \<noteq> [] \<longrightarrow>
      parseArgs [''--dir'', d, ''--concurrency'', t] =
        Inr \<lparr>dir = Some d, prefix = [], dry = False,
             concurrency = parseInt10 (if t = [] then ''5'' else t)\<rparr>)
   \<and> (d \<noteq> [] \<and> int n \<le> 2 ^ 53 \<longrightarrow>
      parseArgs [''--dir'', d, ''--concurrency'', CHR ''-'' # show_nat n] =
        Inr \<lparr>dir = Some d, prefix = [], dry = False, concurrency = Num (- int n)\<rparr>)
   \<and> (d \<noteq> [] \<and> 2 ^ 53 < int n \<longrightarrow>
      parseArgs [''--dir'', d, ''--concurrency'', CHR ''-'' # show_nat n] =
        Inr \<lparr>dir = Some d, prefix = [], dry = False, concurrency = Huge True\<rparr>)
   \<and> (parseArgs args = Inl st \<longrightarrow> st = 1 \<and> falsy (dir (scan_args args default_out)))"
proof -
  have a: "d \<noteq> [] \<and> int n \<le> 2 ^ 53 \<longrightarrow>
      parseArgs [''--dir'', d, ''--concurrency'', CHR ''-'' # show_nat n] =
        Inr \<lparr>dir = Some d, prefix = [], dry = False, concurrency = Num (- int n)\<rparr>"
    using parseArgs_dir_concurrency [of d "CHR ''-'' # show_nat n"]
    by (simp add: parseInt10_minus_show_nat)
  have a': "d \<noteq> [] \<and> 2 ^ 53 < int n \<longrightarrow>
      parseArgs [''--dir'', d, ''--concurrency'', CHR ''-'' # show_nat n] =
        Inr \<lparr>dir = Some d, prefix = [], dry = False, concurrency = Huge True\<rparr>"
    using parseArgs_dir_concurrency [of d "CHR ''-'' # show_nat n"]
    by (simp add: parseInt10_minus_show_nat)
  have b: "parseArgs args = Inl st \<longrightarrow> st = 1 \<and> falsy (dir (scan_args args default_out))"
    by (auto simp: parseArgs_def falsy_def Let_def split: if_splits)
  show ?thesis
    using a a' b parseArgs_dir_concurrency [of d t] by blast
qed

text \<open>
  C8 on three command lines: a negative concurrency is accepted, one of seventeen
  digits is accepted, a missing directory is not.
\<close>

theorem parseArgs_checks_only_dir_witness:
  "parseArgs [''--dir'', ''photos'', ''--concurrency'', ''-3''] =
     Inr \<lparr>dir = Some ''photos'', prefix = [], dry = False, concurrency = Num (- 3)\<rparr>
   \<and> parseArgs [''--dir'', ''photos'', ''--concurrency'', ''-9007199254740993''] =
     Inr \<lparr>dir = Some ''photos'', prefix = [], dry = False, concurrency = Huge True\<rparr>
   \<and> parseArgs [''--dry''] = Inl 1
   \<and> falsy (dir (scan_args [''--dry''] default_out))"
proof -
  have s: "show_nat 3 = ''3''"
    by code_simp
  have s2: "show_nat 9007199254740993 = ''9007199254740993''"
    by (simp add: show_nat.simps digit_chars)
  have r: "parseArgs [''--dry''] = Inl 1"
    by (simp add: parseArgs_def default_out_def)
  have "parseArgs [''--dir'', ''photos'', ''--concurrency'', CHR ''-'' # show_nat 3] =
          Inr \<lparr>dir = Some ''photos'', prefix = [], dry = False, concurrency = Num (- int 3)\<rparr>"
    using parseArgs_checks_only_dir [of "''photos''" "[]" 3 "[]" 0] by simp
  moreover have "parseArgs [''--dir'', ''photos'', ''--concurrency'',
          CHR ''-'' # show_nat 9007199254740993] =
          Inr \<lparr>dir = Some ''photos'', prefix = [], dry = False, concurrency = Huge True\<rparr>"
    using parseArgs_checks_only_dir [of "''photos''" "[]" 9007199254740993 "[]" 0] by simp
  moreover have "falsy (dir (scan_args [''--dry''] default_out))"
    using parseArgs_checks_only_dir [of "[]" "[]" 0 "[''--dry'']" 1] r by blast
  ultimately show ?thesis
    using r s s2 by simp
qed

text \<open>
  C8 as stated fails: \<^verbatim>\<open>--dir dir --concurrency 0\<close> is accepted, the job is built
  with concurrency 0, and \<^verbatim>\<open>main\<close> goes on to enumerate the directory, starts no
  runner, prints its two lines and ends with status 0 (first variant).
\<close>

theorem parseArgs_nonpositive_counterexample:
  "parseArgs [''--dir'', ''dir'', ''--concurrency'', ''0''] =
     Inr \<lparr>dir = Some ''dir'', prefix = [], dry = False, concurrency = Num 0\<rparr>
   \<and> main1 example_env [''--dir'', ''dir'', ''--concurrency'', ''0''] [] =
     \<lparr>printed = [ConsoleLog ''Uploading 3 files to s3://bucket/'', ConsoleLog ''Done.''],
      exit_status = Some 0\<rparr>"
proof -
  have p: "parseArgs [''--dir'', ''dir'', ''--concurrency'', ''0''] =
     Inr \<lparr>dir = Some ''dir'', prefix = [], dry = False, concurrency = Num 0\<rparr>"
    by (simp add: parseArgs_def default_out_def parseInt10_def is_js_space_def
        is_digit_def digits_value_def)
  have s: "show_nat 3 = ''3''"
    by code_simp
  have l: "limitConcurrency1 [''a.txt'', ''b.txt'', ''c.txt''] (Num 0) w [] =
      \<lparr>next_index = 0, results = [None, None, None], runners = [],
       first_rejection = None, claims = [], trace = []\<rparr>" for w :: "string \<Rightarrow> (failure, unit, event) call"
    by (simp add: limitConcurrency1_def launch1_def math_min_def array_from_length_def
        numeral_3_eq_3)
  from s have s': "show_nat (Suc (Suc (Suc 0))) = ''3''"
    by (simp add: numeral_3_eq_3)
  show ?thesis
    by (simp add: p main1_def main_with_def example_env_def l returned_def s')
qed

section \<open>Properties of the Content-Type Resolver\<close>

lemma js_or_nonempty: "d \<noteq> [] \<Longrightarrow> js_or x d \<noteq> []"
  by (simp add: js_or_def split: option.splits)

text \<open>
  C9. The resolver is a total function. Over any extension table whose types are
  non-empty strings, it returns the table's type when the name has an extension that
  the table knows, and \<^verbatim>\<open>application/octet-stream\<close> when the extension is unknown or
  absent. Whatever \<^verbatim>\<open>mime.lookup\<close> is, a falsy lookup gives \<^verbatim>\<open>application/octet-stream\<close>.
  With \<^verbatim>\<open>jpg\<close> in the table, \<^verbatim>\<open>photo.jpg\<close> resolves to \<^verbatim>\<open>image/jpeg\<close> and \<^verbatim>\<open>file.xyz\<close>
  to \<^verbatim>\<open>application/octet-stream\<close>.
\<close>

theorem content_type_resolves:
  assumes "\<forall>t \<in> snd ` set table. t \<noteq> []"
  shows "content_type (table_lookup table) name =
           (case extension_of name of
              None \<Rightarrow> ''application/octet-stream''
            | Some e \<Rightarrow>
                (case map_of table e of
                   None \<Rightarrow> ''application/octet-stream''
                 | Some t \<Rightarrow> t))
         \<and> (lookup name = None \<or> lookup name = Some [] \<longrightarrow>
              content_type lookup name = ''application/octet-stream'')
         \<and> content_type lookup name \<noteq> []
         \<and> content_type (table_lookup [(''jpg'', ''image/jpeg'')]) ''photo.jpg'' = ''image/jpeg''
         \<and> content_type (table_lookup [(''jpg'', ''image/jpeg'')]) ''file.xyz'' =
             ''application/octet-stream''"
proof -
  have a: "content_type (table_lookup table) name =
           (case extension_of name of
              None \<Rightarrow> ''application/octet-stream''
            | Some e \<Rightarrow>
                (case map_of table e of
                   None \<Rightarrow> ''application/octet-stream''
                 | Some t \<Rightarrow> t))"
  proof (cases "extension_of name")
    case None
    then show ?thesis by (simp add: content_type_def table_lookup_def js_or_def)
  next
    case (Some e)
    show ?thesis
    proof (cases "map_of table e")
      case None
      with Some show ?thesis by (simp add: content_type_def table_lookup_def js_or_def)
    next
      case (Some t)
      then have "(e, t) \<in> set table" by (rule map_of_SomeD)
      then have "t \<in> snd ` set table" by force
      with assms have "t \<noteq> []" by blast
      with Some \<open>extension_of name = Some e\<close> show ?thesis
        by (simp add: content_type_def table_lookup_def js_or_def)
    qed
  qed
  have b: "lookup name = None \<or> lookup name = Some [] \<longrightarrow>
              content_type lookup name = ''application/octet-stream''"
    by (auto simp: content_type_def js_or_def)
  have c: "content_type lookup name \<noteq> []"
    unfolding content_type_def by (rule js_or_nonempty) simp
  have d: "content_type (table_lookup [(''jpg'', ''image/jpeg'')]) ''photo.jpg'' = ''image/jpeg''"
    by (simp add: content_type_def table_lookup_def extension_of_def js_or_def)
  have e: "content_type (table_lookup [(''jpg'', ''image/jpeg'')]) ''file.xyz'' =
             ''application/octet-stream''"
    by (simp add: content_type_def table_lookup_def extension_of_def js_or_def)
  show ?thesis
    using a b c d e by blast
qed

text \<open>C9 over a table of two types: a known extension, and a name without extension.\<close>

theorem content_type_resolves_witness:
  "content_type (table_lookup [(''txt'', ''text/plain''), (''png'', ''image/png'')]) ''notes.txt''
     = ''text/plain''
   \<and> content_type (table_lookup [(''txt'', ''text/plain''), (''png'', ''image/png'')]) ''Makefile''
     = ''application/octet-stream''
   \<and> content_type (\<lambda>x. None) ''Makefile'' = ''application/octet-stream''"
proof -
  have h: "\<forall>t \<in> snd ` set [(''txt'', ''text/plain''), (''png'', ''image/png'')]. t \<noteq> []"
    by simp
  have e1: "extension_of ''notes.txt'' = Some ''txt''"
    by (simp add: extension_of_def)
  have e2: "extension_of ''Makefile'' = None"
    by (simp add: extension_of_def)
  show ?thesis
    using content_type_resolves [OF h, of "''notes.txt''" "\<lambda>x. None"]
      content_type_resolves [OF h, of "''Makefile''" "\<lambda>x. None"]
    by (simp add: e1 e2)
qed

section \<open>The invariant of a run\<close>

lemma slot_array_set: "slot (array_set a i v) j = (if j = i then Some v else slot a j)"
  by (auto simp: slot_def array_set_def nth_append)

lemma length_array_set: "length (array_set a i v) = max (length a) (Suc i)"
  by (auto simp: array_set_def)

lemma pool_inv_iff:
  "pool_inv items worker s \<longleftrightarrow>
     map snd (claims s) = [0..<min (next_index s) (length items)]
   \<and> (\<forall>k < length (runners s). \<forall>i. holds (runners s ! k) = Some i
          \<longrightarrow> i < min (next_index s) (length items))
   \<and> (\<forall>k < length (runners s). \<forall>k' < length (runners s). \<forall>i.
          holds (runners s ! k) = Some i \<and> holds (runners s ! k') = Some i \<longrightarrow> k = k')
   \<and> (\<forall>i < min (next_index s) (length items).
          (\<exists>k < length (runners s). holds (runners s ! k) = Some i)
        \<or> (case settles_with (worker (items ! i)) of
              Inr v \<Rightarrow> slot (results s) i = Some v
            | Inl e \<Rightarrow> \<exists>k < length (runners s). runners s ! k = Rejected e))
   \<and> (\<forall>i v. slot (results s) i = Some v \<longrightarrow>
          i < min (next_index s) (length items) \<and> settles_with (worker (items ! i)) = Inr v)
   \<and> length (results s) \<le> length items
   \<and> (\<forall>k < length (runners s). \<forall>e. runners s ! k = Rejected e \<longrightarrow>
          (\<exists>i < min (next_index s) (length items). settles_with (worker (items ! i)) = Inl e))
   \<and> (\<forall>x. first_rejection s = Some x \<longrightarrow>
          (\<exists>k < length (runners s). \<exists>e. x = Thrown e \<and> runners s ! k = Rejected e))
   \<and> ((\<exists>k < length (runners s). \<exists>e. runners s ! k = Rejected e) \<longrightarrow> first_rejection s \<noteq> None)
   \<and> ((\<exists>k < length (runners s). runners s ! k = Finished) \<longrightarrow> length items \<le> next_index s)
   \<and> (\<forall>k i. (k, i) \<in> set (claims s) \<longrightarrow> k < length (runners s))"
  unfolding pool_inv_def Let_def ..

lemma pool_invI:
  assumes "map snd (claims s) = [0..<min (next_index s) (length items)]"
    and "\<And>k i. k < length (runners s) \<Longrightarrow> holds (runners s ! k) = Some i
          \<Longrightarrow> i < min (next_index s) (length items)"
    and "\<And>k k' i. k < length (runners s) \<Longrightarrow> k' < length (runners s) \<Longrightarrow>
          holds (runners s ! k) = Some i \<Longrightarrow> holds (runners s ! k') = Some i \<Longrightarrow> k = k'"
    and "\<And>i. i < min (next_index s) (length items) \<Longrightarrow>
          (\<exists>k < length (runners s). holds (runners s ! k) = Some i)
        \<or> (case settles_with (worker (items ! i)) of
              Inr v \<Rightarrow> slot (results s) i = Some v
            | Inl e \<Rightarrow> \<exists>k < length (runners s). runners s ! k = Rejected e)"
    and "\<And>i v. slot (results s) i = Some v \<Longrightarrow>
          i < min (next_index s) (length items) \<and> settles_with (worker (items ! i)) = Inr v"
    and "length (results s) \<le> length items"
    and "\<And>k e. k < length (runners s) \<Longrightarrow> runners s ! k = Rejected e \<Longrightarrow>
          (\<exists>i < min (next_index s) (length items). settles_with (worker (items ! i)) = Inl e)"
    and "\<And>x. first_rejection s = Some x \<Longrightarrow>
          (\<exists>k < length (runners s). \<exists>e. x = Thrown e \<and> runners s ! k = Rejected e)"
    and "\<And>k e. k < length (runners s) \<Longrightarrow> runners s ! k = Rejected e \<Longrightarrow> first_rejection s \<noteq> None"
    and "\<And>k. k < length (runners s) \<Longrightarrow> runners s ! k = Finished \<Longrightarrow> length items \<le> next_index s"
    and "\<And>k i. (k, i) \<in> set (claims s) \<Longrightarrow> k < length (runners s)"
  shows "pool_inv items worker s"
  unfolding pool_inv_iff using assms by blast

lemma inv_claims: "pool_inv items worker s \<Longrightarrow> map snd (claims s) = [0..<min (next_index s) (length items)]"
  by (simp add: pool_inv_iff)

lemma inv_held: "pool_inv items worker s \<Longrightarrow> k < length (runners s) \<Longrightarrow> holds (runners s ! k) = Some i
          \<Longrightarrow> i < min (next_index s) (length items)"
  by (simp add: pool_inv_iff)

lemma inv_inj: "pool_inv items worker s \<Longrightarrow> k < length (runners s) \<Longrightarrow> k' < length (runners s) \<Longrightarrow>
          holds (runners s ! k) = Some i \<Longrightarrow> holds (runners s ! k') = Some i \<Longrightarrow> k = k'"
  unfolding pool_inv_iff by blast

lemma inv_acct: "pool_inv items worker s \<Longrightarrow> i < min (next_index s) (length items) \<Longrightarrow>
          (\<exists>k < length (runners s). holds (runners s ! k) = Some i)
        \<or> (case settles_with (worker (items ! i)) of
              Inr v \<Rightarrow> slot (results s) i = Some v
            | Inl e \<Rightarrow> \<exists>k < length (runners s). runners s ! k = Rejected e)"
  unfolding pool_inv_iff by blast

lemma inv_slot: "pool_inv items worker s \<Longrightarrow> slot (results s) i = Some v \<Longrightarrow>
          i < min (next_index s) (length items) \<and> settles_with (worker (items ! i)) = Inr v"
  unfolding pool_inv_iff by blast

lemma inv_len: "pool_inv items worker s \<Longrightarrow> length (results s) \<le> length items"
  by (simp add: pool_inv_iff)

lemma inv_rej: "pool_inv items worker s \<Longrightarrow> k < length (runners s) \<Longrightarrow> runners s ! k = Rejected e \<Longrightarrow>
          (\<exists>i < min (next_index s) (length items). settles_with (worker (items ! i)) = Inl e)"
  unfolding pool_inv_iff by blast

lemma inv_first: "pool_inv items worker s \<Longrightarrow> first_rejection s = Some x \<Longrightarrow>
          (\<exists>k < length (runners s). \<exists>e. x = Thrown e \<and> runners s ! k = Rejected e)"
  unfolding pool_inv_iff by blast

lemma inv_seen: "pool_inv items worker s \<Longrightarrow> k < length (runners s) \<Longrightarrow> runners s ! k = Rejected e
    \<Longrightarrow> first_rejection s \<noteq> None"
  unfolding pool_inv_iff by blast

lemma inv_fin: "pool_inv items worker s \<Longrightarrow> k < length (runners s) \<Longrightarrow> runners s ! k = Finished
    \<Longrightarrow> length items \<le> next_index s"
  unfolding pool_inv_iff by blast

lemma inv_who: "pool_inv items worker s \<Longrightarrow> (k, i) \<in> set (claims s) \<Longrightarrow> k < length (runners s)"
  unfolding pool_inv_iff by blast

lemma inv_claim:
  assumes inv: "pool_inv items worker s"
    and nx: "next_index s < length items"
    and len: "length (runners s) \<le> length rs'" and k: "k < length rs'"
    and same: "\<And>k'. k' < length rs' \<Longrightarrow> k' \<noteq> k
                 \<Longrightarrow> k' < length (runners s) \<and> rs' ! k' = runners s ! k'"
    and old: "k < length (runners s) \<Longrightarrow> \<exists>i v. runners s ! k = Ready i \<and> slot (results s) i = Some v"
    and new: "holds (rs' ! k) = Some (next_index s)"
  shows "pool_inv items worker
           (s\<lparr>next_index := Suc (next_index s), claims := claims s @ [(k, next_index s)],
              trace := t, runners := rs'\<rparr>)"
proof (rule pool_invI)
  let ?s' = "s\<lparr>next_index := Suc (next_index s), claims := claims s @ [(k, next_index s)],
              trace := t, runners := rs'\<rparr>"
  have c: "min (next_index s) (length items) = next_index s"
    and c': "min (Suc (next_index s)) (length items) = Suc (next_index s)"
    using nx by simp_all
  have notrej: "rs' ! k \<noteq> Rejected e" and notfin: "rs' ! k \<noteq> Finished" for e
    using new by auto
  show "map snd (claims ?s') = [0..<min (next_index ?s') (length items)]"
    using inv_claims [OF inv] c by (simp add: c')
  show "i < min (next_index ?s') (length items)"
    if "k' < length (runners ?s')" "holds (runners ?s' ! k') = Some i" for k' i
  proof (cases "k' = k")
    case True
    with that new nx show ?thesis by simp
  next
    case False
    with that same [of k'] inv_held [OF inv, of k' i] nx show ?thesis by simp
  qed
  show "k1 = k2"
    if "k1 < length (runners ?s')" "k2 < length (runners ?s')"
      "holds (runners ?s' ! k1) = Some i" "holds (runners ?s' ! k2) = Some i" for k1 k2 i
  proof -
    have other: False if a: "k'' < length rs'" "k'' \<noteq> k" "holds (rs' ! k'') = Some (next_index s)" for k''
      using same [OF a(1,2)] a(3) inv_held [OF inv, of k'' "next_index s"] nx by simp
    show ?thesis
    proof (cases "k1 = k")
      case True
      with that new have "i = next_index s" by simp
      with that other [of k2] True show ?thesis by auto
    next
      case k1: False
      show ?thesis
      proof (cases "k2 = k")
        case True
        with that new have "i = next_index s" by simp
        with that other [of k1] True show ?thesis by auto
      next
        case False
        with k1 that same [of k1] same [of k2] inv_inj [OF inv, of k1 k2 i] show ?thesis by simp
      qed
    qed
  qed
  show "(\<exists>k' < length (runners ?s'). holds (runners ?s' ! k') = Some i)
        \<or> (case settles_with (worker (items ! i)) of
              Inr v \<Rightarrow> slot (results ?s') i = Some v
            | Inl e \<Rightarrow> \<exists>k' < length (runners ?s'). runners ?s' ! k' = Rejected e)"
    if "i < min (next_index ?s') (length items)" for i
  proof (cases "i = next_index s")
    case True
    with new k show ?thesis by auto
  next
    case False
    with that nx have i: "i < min (next_index s) (length items)" by simp
    from inv_acct [OF inv i] show ?thesis
    proof
      assume "\<exists>k0 < length (runners s). holds (runners s ! k0) = Some i"
      then obtain k0 where k0: "k0 < length (runners s)" "holds (runners s ! k0) = Some i" by blast
      show ?thesis
      proof (cases "k0 = k")
        case True
        with old k0 obtain v where v: "slot (results s) i = Some v" by auto
        with inv_slot [OF inv v] show ?thesis by simp
      next
        case False
        with k0 len same [of k0] have "k0 < length rs' \<and> holds (rs' ! k0) = Some i" by simp
        then show ?thesis by auto
      qed
    next
      assume a: "case settles_with (worker (items ! i)) of
              Inr v \<Rightarrow> slot (results s) i = Some v
            | Inl e \<Rightarrow> \<exists>k' < length (runners s). runners s ! k' = Rejected e"
      show ?thesis
      proof (cases "settles_with (worker (items ! i))")
        case (Inr v)
        with a show ?thesis by simp
      next
        case (Inl e)
        with a obtain k0 where k0: "k0 < length (runners s)" "runners s ! k0 = Rejected e" by auto
        have "k0 \<noteq> k" using k0 old by auto
        with k0 len same [of k0] have "k0 < length rs' \<and> rs' ! k0 = Rejected e" by simp
        with Inl show ?thesis by auto
      qed
    qed
  qed
  show "i < min (next_index ?s') (length items) \<and> settles_with (worker (items ! i)) = Inr v"
    if "slot (results ?s') i = Some v" for i v
    using that inv_slot [OF inv, of i v] nx by simp
  show "length (results ?s') \<le> length items"
    using inv_len [OF inv] by simp
  show "\<exists>i < min (next_index ?s') (length items). settles_with (worker (items ! i)) = Inl e"
    if "k' < length (runners ?s')" "runners ?s' ! k' = Rejected e" for k' e
  proof -
    from that notrej have "k' \<noteq> k" by auto
    with that same [of k'] have "k' < length (runners s)" "runners s ! k' = Rejected e" by simp_all
    from inv_rej [OF inv this] nx obtain i0
      where "i0 < next_index s" "settles_with (worker (items ! i0)) = Inl e" by auto
    then have "i0 < Suc (next_index s) \<and> settles_with (worker (items ! i0)) = Inl e" by simp
    then show ?thesis using nx by (simp add: c') blast
  qed
  show "\<exists>k' < length (runners ?s'). \<exists>e. x = Thrown e \<and> runners ?s' ! k' = Rejected e"
    if "first_rejection ?s' = Some x" for x
  proof -
    from that inv_first [OF inv, of x] obtain k0 e
      where k0: "k0 < length (runners s)" "x = Thrown e" "runners s ! k0 = Rejected e" by auto
    have ne: "k0 \<noteq> k" using k0 old by auto
    have l: "k0 < length rs'" using k0(1) len by simp
    with ne same [of k0] k0 have "rs' ! k0 = Rejected e" by simp
    with l k0(2) show ?thesis by auto
  qed
  show "first_rejection ?s' \<noteq> None"
    if "k' < length (runners ?s')" "runners ?s' ! k' = Rejected e" for k' e
  proof -
    from that notrej have "k' \<noteq> k" by auto
    with that same [of k'] inv_seen [OF inv, of k' e] show ?thesis by simp
  qed
  show "length items \<le> next_index ?s'"
    if "k' < length (runners ?s')" "runners ?s' ! k' = Finished" for k'
  proof -
    from that notfin have "k' \<noteq> k" by auto
    with that same [of k'] inv_fin [OF inv, of k'] show ?thesis by simp
  qed
  show "k' < length (runners ?s')" if "(k', i) \<in> set (claims ?s')" for k' i
    using that inv_who [OF inv, of k' i] len k by auto
qed

lemma inv_finish:
  assumes inv: "pool_inv items worker s"
    and nx: "length items \<le> next_index s" and m: "next_index s \<le> m"
    and len: "length (runners s) \<le> length rs'" and k: "k < length rs'"
    and same: "\<And>k'. k' < length rs' \<Longrightarrow> k' \<noteq> k
                 \<Longrightarrow> k' < length (runners s) \<and> rs' ! k' = runners s ! k'"
    and old: "k < length (runners s) \<Longrightarrow> \<exists>i v. runners s ! k = Ready i \<and> slot (results s) i = Some v"
    and new: "rs' ! k = Finished"
  shows "pool_inv items worker (s\<lparr>next_index := m, runners := rs'\<rparr>)"
proof (rule pool_invI)
  let ?s' = "s\<lparr>next_index := m, runners := rs'\<rparr>"
  have c: "min (next_index s) (length items) = length items"
    and c': "min m (length items) = length items"
    using nx m by simp_all
  have notrej: "rs' ! k \<noteq> Rejected e" and nothold: "holds (rs' ! k) \<noteq> Some i" for e i
    using new by auto
  show "map snd (claims ?s') = [0..<min (next_index ?s') (length items)]"
    using inv_claims [OF inv] by (simp add: c c')
  show "i < min (next_index ?s') (length items)"
    if "k' < length (runners ?s')" "holds (runners ?s' ! k') = Some i" for k' i
  proof -
    from that nothold have "k' \<noteq> k" by auto
    with that same [of k'] inv_held [OF inv, of k' i] show ?thesis by (simp add: c c')
  qed
  show "k1 = k2"
    if "k1 < length (runners ?s')" "k2 < length (runners ?s')"
      "holds (runners ?s' ! k1) = Some i" "holds (runners ?s' ! k2) = Some i" for k1 k2 i
  proof -
    from that nothold have "k1 \<noteq> k" "k2 \<noteq> k" by auto
    with that same [of k1] same [of k2] inv_inj [OF inv, of k1 k2 i] show ?thesis by simp
  qed
  show "(\<exists>k' < length (runners ?s'). holds (runners ?s' ! k') = Some i)
        \<or> (case settles_with (worker (items ! i)) of
              Inr v \<Rightarrow> slot (results ?s') i = Some v
            | Inl e \<Rightarrow> \<exists>k' < length (runners ?s'). runners ?s' ! k' = Rejected e)"
    if "i < min (next_index ?s') (length items)" for i
  proof -
    from that have i: "i < min (next_index s) (length items)" by (simp add: c c')
    from inv_acct [OF inv i] show ?thesis
    proof
      assume "\<exists>k0 < length (runners s). holds (runners s ! k0) = Some i"
      then obtain k0 where k0: "k0 < length (runners s)" "holds (runners s ! k0) = Some i" by blast
      show ?thesis
      proof (cases "k0 = k")
        case True
        with old k0 obtain v where v: "slot (results s) i = Some v" by auto
        with inv_slot [OF inv v] show ?thesis by simp
      next
        case False
        with k0 len same [of k0] have "k0 < length rs' \<and> holds (rs' ! k0) = Some i" by simp
        then show ?thesis by auto
      qed
    next
      assume a: "case settles_with (worker (items ! i)) of
              Inr v \<Rightarrow> slot (results s) i = Some v
            | Inl e \<Rightarrow> \<exists>k' < length (runners s). runners s ! k' = Rejected e"
      show ?thesis
      proof (cases "settles_with (worker (items ! i))")
        case (Inr v)
        with a show ?thesis by simp
      next
        case (Inl e)
        with a obtain k0 where k0: "k0 < length (runners s)" "runners s ! k0 = Rejected e" by auto
        have "k0 \<noteq> k" using k0 old by auto
        with k0 len same [of k0] have "k0 < length rs' \<and> rs' ! k0 = Rejected e" by simp
        with Inl show ?thesis by auto
      qed
    qed
  qed
  show "i < min (next_index ?s') (length items) \<and> settles_with (worker (items ! i)) = Inr v"
    if "slot (results ?s') i = Some v" for i v
    using that inv_slot [OF inv, of i v] by (simp add: c c')
  show "length (results ?s') \<le> length items"
    using inv_len [OF inv] by simp
  show "\<exists>i < min (next_index ?s') (length items). settles_with (worker (items ! i)) = Inl e"
    if "k' < length (runners ?s')" "runners ?s' ! k' = Rejected e" for k' e
  proof -
    from that notrej have "k' \<noteq> k" by auto
    with that same [of k'] have "k' < length (runners s)" "runners s ! k' = Rejected e" by simp_all
    from inv_rej [OF inv this] show ?thesis by (simp add: c c')
  qed
  show "\<exists>k' < length (runners ?s'). \<exists>e. x = Thrown e \<and> runners ?s' ! k' = Rejected e"
    if "first_rejection ?s' = Some x" for x
  proof -
    from that inv_first [OF inv, of x] obtain k0 e
      where k0: "k0 < length (runners s)" "x = Thrown e" "runners s ! k0 = Rejected e" by auto
    have ne: "k0 \<noteq> k" using k0 old by auto
    have l: "k0 < length rs'" using k0(1) len by simp
    with ne same [of k0] k0 have "rs' ! k0 = Rejected e" by simp
    with l k0(2) show ?thesis by auto
  qed
  show "first_rejection ?s' \<noteq> None"
    if "k' < length (runners ?s')" "runners ?s' ! k' = Rejected e" for k' e
  proof -
    from that notrej have "k' \<noteq> k" by auto
    with that same [of k'] inv_seen [OF inv, of k' e] show ?thesis by simp
  qed
  show "length items \<le> next_index ?s'"
    if "k' < length (runners ?s')" "runners ?s' ! k' = Finished" for k'
    using nx m by simp
  show "k' < length (runners ?s')" if "(k', i) \<in> set (claims ?s')" for k' i
    using that inv_who [OF inv, of k' i] len by auto
qed

lemma inv_store:
  assumes inv: "pool_inv items worker s"
    and k: "k < length (runners s)" and r: "runners s ! k = Ready i"
    and v: "settles_with (worker (items ! i)) = Inr v"
  shows "pool_inv items worker (s\<lparr>results := array_set (results s) i v\<rparr>)"
proof (rule pool_invI)
  let ?s' = "s\<lparr>results := array_set (results s) i v\<rparr>"
  have i: "i < min (next_index s) (length items)"
    using inv_held [OF inv k, of i] r by simp
  show "map snd (claims ?s') = [0..<min (next_index ?s') (length items)]"
    using inv_claims [OF inv] by simp
  show "j < min (next_index ?s') (length items)"
    if "k' < length (runners ?s')" "holds (runners ?s' ! k') = Some j" for k' j
    using that inv_held [OF inv, of k' j] by simp
  show "k1 = k2"
    if "k1 < length (runners ?s')" "k2 < length (runners ?s')"
      "holds (runners ?s' ! k1) = Some j" "holds (runners ?s' ! k2) = Some j" for k1 k2 j
    using that inv_inj [OF inv, of k1 k2 j] by simp
  show "(\<exists>k' < length (runners ?s'). holds (runners ?s' ! k') = Some j)
        \<or> (case settles_with (worker (items ! j)) of
              Inr w \<Rightarrow> slot (results ?s') j = Some w
            | Inl e \<Rightarrow> \<exists>k' < length (runners ?s'). runners ?s' ! k' = Rejected e)"
    if "j < min (next_index ?s') (length items)" for j
  proof (cases "j = i")
    case True
    with v show ?thesis by (simp add: slot_array_set)
  next
    case False
    with that inv_acct [OF inv, of j] show ?thesis
      by (auto simp: slot_array_set split: sum.splits)
  qed
  show "j < min (next_index ?s') (length items) \<and> settles_with (worker (items ! j)) = Inr w"
    if "slot (results ?s') j = Some w" for j w
  proof (cases "j = i")
    case True
    with that v i show ?thesis by (simp add: slot_array_set)
  next
    case False
    with that inv_slot [OF inv, of j w] show ?thesis by (simp add: slot_array_set)
  qed
  show "length (results ?s') \<le> length items"
    using inv_len [OF inv] i by (simp add: length_array_set)
  show "\<exists>j < min (next_index ?s') (length items). settles_with (worker (items ! j)) = Inl e"
    if "k' < length (runners ?s')" "runners ?s' ! k' = Rejected e" for k' e
    using that inv_rej [OF inv, of k' e] by simp
  show "\<exists>k' < length (runners ?s'). \<exists>e. x = Thrown e \<and> runners ?s' ! k' = Rejected e"
    if "first_rejection ?s' = Some x" for x
    using that inv_first [OF inv, of x] by simp
  show "first_rejection ?s' \<noteq> None"
    if "k' < length (runners ?s')" "runners ?s' ! k' = Rejected e" for k' e
    using that inv_seen [OF inv, of k' e] by simp
  show "length items \<le> next_index ?s'"
    if "k' < length (runners ?s')" "runners ?s' ! k' = Finished" for k'
    using that inv_fin [OF inv, of k'] by simp
  show "k' < length (runners ?s')" if "(k', j) \<in> set (claims ?s')" for k' j
    using that inv_who [OF inv, of k' j] by simp
qed

lemma inv_settle:
  assumes inv: "pool_inv items worker s"
    and k: "k < length (runners s)" and p: "runners s ! k = Pending i"
  shows "pool_inv items worker (s\<lparr>runners := (runners s)[k := Ready i], trace := t\<rparr>)"
proof -
  have h: "holds ((runners s)[k := Ready i] ! k') = holds (runners s ! k')"
    if "k' < length (runners s)" for k'
    using k p that by (cases "k' = k") auto
  have r: "((runners s)[k := Ready i] ! k' = Rejected e) = (runners s ! k' = Rejected e)"
    if "k' < length (runners s)" for k' e
    using k p that by (cases "k' = k") auto
  have f: "((runners s)[k := Ready i] ! k' = Finished) = (runners s ! k' = Finished)"
    if "k' < length (runners s)" for k'
    using k p that by (cases "k' = k") auto
  show ?thesis
  proof (rule pool_invI)
    let ?s' = "s\<lparr>runners := (runners s)[k := Ready i], trace := t\<rparr>"
    show "map snd (claims ?s') = [0..<min (next_index ?s') (length items)]"
      using inv_claims [OF inv] by simp
    show "j < min (next_index ?s') (length items)"
      if "k' < length (runners ?s')" "holds (runners ?s' ! k') = Some j" for k' j
      using that inv_held [OF inv, of k' j] h [of k'] by simp
    show "k1 = k2"
      if "k1 < length (runners ?s')" "k2 < length (runners ?s')"
        "holds (runners ?s' ! k1) = Some j" "holds (runners ?s' ! k2) = Some j" for k1 k2 j
      using that inv_inj [OF inv, of k1 k2 j] h [of k1] h [of k2] by simp
    show "(\<exists>k' < length (runners ?s'). holds (runners ?s' ! k') = Some j)
          \<or> (case settles_with (worker (items ! j)) of
                Inr w \<Rightarrow> slot (results ?s') j = Some w
              | Inl e \<Rightarrow> \<exists>k' < length (runners ?s'). runners ?s' ! k' = Rejected e)"
      if "j < min (next_index ?s') (length items)" for j
    proof -
      from that have j: "j < min (next_index s) (length items)" by simp
      from inv_acct [OF inv j] show ?thesis
      proof
        assume "\<exists>k0 < length (runners s). holds (runners s ! k0) = Some j"
        then obtain k0 where "k0 < length (runners s)" "holds (runners s ! k0) = Some j" by blast
        with h [of k0] have "k0 < length (runners ?s') \<and> holds (runners ?s' ! k0) = Some j" by simp
        then show ?thesis by blast
      next
        assume a: "case settles_with (worker (items ! j)) of
                Inr w \<Rightarrow> slot (results s) j = Some w
              | Inl e \<Rightarrow> \<exists>k' < length (runners s). runners s ! k' = Rejected e"
        show ?thesis
        proof (cases "settles_with (worker (items ! j))")
          case (Inr w)
          with a show ?thesis by simp
        next
          case (Inl e)
          with a obtain k0 where "k0 < length (runners s)" "runners s ! k0 = Rejected e" by auto
          with r [of k0 e] have "k0 < length (runners ?s') \<and> runners ?s' ! k0 = Rejected e" by simp
          with Inl show ?thesis by auto
        qed
      qed
    qed
    show "j < min (next_index ?s') (length items) \<and> settles_with (worker (items ! j)) = Inr w"
      if "slot (results ?s') j = Some w" for j w
      using that inv_slot [OF inv, of j w] by simp
    show "length (results ?s') \<le> length items"
      using inv_len [OF inv] by simp
    show "\<exists>j < min (next_index ?s') (length items). settles_with (worker (items ! j)) = Inl e"
      if "k' < length (runners ?s')" "runners ?s' ! k' = Rejected e" for k' e
      using that inv_rej [OF inv, of k' e] r [of k' e] by simp
    show "\<exists>k' < length (runners ?s'). \<exists>e. x = Thrown e \<and> runners ?s' ! k' = Rejected e"
      if "first_rejection ?s' = Some x" for x
    proof -
      from that inv_first [OF inv, of x] obtain k0 e
        where k0: "k0 < length (runners s)" "x = Thrown e" "runners s ! k0 = Rejected e" by auto
      with r [of k0 e] have "k0 < length (runners ?s') \<and> runners ?s' ! k0 = Rejected e" by simp
      with k0(2) show ?thesis by blast
    qed
    show "first_rejection ?s' \<noteq> None"
      if "k' < length (runners ?s')" "runners ?s' ! k' = Rejected e" for k' e
      using that inv_seen [OF inv, of k' e] r [of k' e] by simp
    show "length items \<le> next_index ?s'"
      if "k' < length (runners ?s')" "runners ?s' ! k' = Finished" for k'
      using that inv_fin [OF inv, of k'] f [of k'] by simp
    show "k' < length (runners ?s')" if "(k', j) \<in> set (claims ?s')" for k' j
      using that inv_who [OF inv, of k' j] by simp
  qed
qed

lemma inv_reject:
  assumes inv: "pool_inv items worker s"
    and k: "k < length (runners s)" and r: "runners s ! k = Ready i"
    and e: "settles_with (worker (items ! i)) = Inl e"
  shows "pool_inv items worker
           (s\<lparr>runners := (runners s)[k := Rejected e],
              first_rejection :=
                (case first_rejection s of None \<Rightarrow> Some (Thrown e) | Some x \<Rightarrow> Some x)\<rparr>)"
proof (rule pool_invI)
  let ?s' = "s\<lparr>runners := (runners s)[k := Rejected e],
              first_rejection :=
                (case first_rejection s of None \<Rightarrow> Some (Thrown e) | Some x \<Rightarrow> Some x)\<rparr>"
  have i: "i < min (next_index s) (length items)"
    using inv_held [OF inv k, of i] r by simp
  have other: "(runners s)[k := Rejected e] ! k' = runners s ! k'" if "k' \<noteq> k" for k'
    using that by simp
  have self: "(runners s)[k := Rejected e] ! k = Rejected e"
    using k by simp
  show "map snd (claims ?s') = [0..<min (next_index ?s') (length items)]"
    using inv_claims [OF inv] by simp
  show "j < min (next_index ?s') (length items)"
    if "k' < length (runners ?s')" "holds (runners ?s' ! k') = Some j" for k' j
  proof -
    from that self have "k' \<noteq> k" by auto
    with that inv_held [OF inv, of k' j] show ?thesis by simp
  qed
  show "k1 = k2"
    if "k1 < length (runners ?s')" "k2 < length (runners ?s')"
      "holds (runners ?s' ! k1) = Some j" "holds (runners ?s' ! k2) = Some j" for k1 k2 j
  proof -
    from that self have "k1 \<noteq> k" "k2 \<noteq> k" by auto
    with that inv_inj [OF inv, of k1 k2 j] show ?thesis by simp
  qed
  show "(\<exists>k' < length (runners ?s'). holds (runners ?s' ! k') = Some j)
        \<or> (case settles_with (worker (items ! j)) of
              Inr w \<Rightarrow> slot (results ?s') j = Some w
            | Inl e' \<Rightarrow> \<exists>k' < length (runners ?s'). runners ?s' ! k' = Rejected e')"
    if "j < min (next_index ?s') (length items)" for j
  proof -
    from that have j: "j < min (next_index s) (length items)" by simp
    from inv_acct [OF inv j] show ?thesis
    proof
      assume "\<exists>k0 < length (runners s). holds (runners s ! k0) = Some j"
      then obtain k0 where k0: "k0 < length (runners s)" "holds (runners s ! k0) = Some j" by blast
      show ?thesis
      proof (cases "k0 = k")
        case True
        with k0 r have "j = i" by simp
        with e self k show ?thesis by auto
      next
        case False
        with k0 have "k0 < length (runners ?s') \<and> holds (runners ?s' ! k0) = Some j" by simp
        then show ?thesis by blast
      qed
    next
      assume a: "case settles_with (worker (items ! j)) of
              Inr w \<Rightarrow> slot (results s) j = Some w
            | Inl e' \<Rightarrow> \<exists>k' < length (runners s). runners s ! k' = Rejected e'"
      show ?thesis
      proof (cases "settles_with (worker (items ! j))")
        case (Inr w)
        with a show ?thesis by simp
      next
        case (Inl e')
        with a obtain k0 where k0: "k0 < length (runners s)" "runners s ! k0 = Rejected e'" by auto
        with r have "k0 \<noteq> k" by auto
        with k0 have "k0 < length (runners ?s') \<and> runners ?s' ! k0 = Rejected e'" by simp
        with Inl show ?thesis by auto
      qed
    qed
  qed
  show "j < min (next_index ?s') (length items) \<and> settles_with (worker (items ! j)) = Inr w"
    if "slot (results ?s') j = Some w" for j w
    using that inv_slot [OF inv, of j w] by simp
  show "length (results ?s') \<le> length items"
    using inv_len [OF inv] by simp
  show "\<exists>j < min (next_index ?s') (length items). settles_with (worker (items ! j)) = Inl e'"
    if "k' < length (runners ?s')" "runners ?s' ! k' = Rejected e'" for k' e'
  proof (cases "k' = k")
    case True
    with that self have "e' = e" by simp
    with e i show ?thesis by auto
  next
    case False
    with that inv_rej [OF inv, of k' e'] show ?thesis by simp
  qed
  show "\<exists>k' < length (runners ?s'). \<exists>e'. x = Thrown e' \<and> runners ?s' ! k' = Rejected e'"
    if "first_rejection ?s' = Some x" for x
  proof (cases "first_rejection s")
    case None
    with that have "x = Thrown e" by simp
    with self k show ?thesis by auto
  next
    case (Some y)
    with that have "first_rejection s = Some x" by simp
    from inv_first [OF inv this] obtain k0 e'
      where k0: "k0 < length (runners s)" "x = Thrown e'" "runners s ! k0 = Rejected e'" by auto
    with r have "k0 \<noteq> k" by auto
    with k0 have "k0 < length (runners ?s') \<and> runners ?s' ! k0 = Rejected e'" by simp
    with k0(2) show ?thesis by blast
  qed
  show "first_rejection ?s' \<noteq> None"
    if "k' < length (runners ?s')" "runners ?s' ! k' = Rejected e'" for k' e'
    by (simp split: option.splits)
  show "length items \<le> next_index ?s'"
    if "k' < length (runners ?s')" "runners ?s' ! k' = Finished" for k'
  proof -
    from that self have "k' \<noteq> k" by auto
    with that inv_fin [OF inv, of k'] show ?thesis by simp
  qed
  show "k' < length (runners ?s')" if "(k', j) \<in> set (claims ?s')" for k' j
    using that inv_who [OF inv, of k' j] by simp
qed

lemma call_worker_eq:
  "call_worker items worker k i s =
     (if (\<exists>evs r. worker (items ! i) = Settled_now evs r) then Ready i else Pending i,
      s\<lparr>claims := claims s @ [(k, i)], trace := trace s @ first_events (worker (items ! i))\<rparr>)"
  by (cases "worker (items ! i)") (simp_all add: call_worker_def)

lemma holds_call_worker: "holds (fst (call_worker items worker k i s)) = Some i"
  by (simp add: call_worker_eq)

lemma body_like_1: "body_like items worker (run_body1 items worker)"
  unfolding body_like_def
proof (intro allI conjI impI)
  fix k and s :: "('b, 'c, 'd) pool"
  assume "next_index s < length items"
  then show "run_body1 items worker k s =
      call_worker items worker k (next_index s) (s\<lparr>next_index := Suc (next_index s)\<rparr>)"
    by (simp add: run_body1_def Let_def)
next
  fix k and s :: "('b, 'c, 'd) pool"
  assume "\<not> next_index s < length items"
  then show "\<exists>m\<ge>next_index s. run_body1 items worker k s = (Finished, s\<lparr>next_index := m\<rparr>)"
    by (intro exI [of _ "Suc (next_index s)"]) (simp add: run_body1_def Let_def)
qed

lemma body_like_2: "body_like items worker (run_body2 items worker)"
  unfolding body_like_def
proof (intro allI conjI impI)
  fix k and s :: "('b, 'c, 'd) pool"
  assume "next_index s < length items"
  then show "run_body2 items worker k s =
      call_worker items worker k (next_index s) (s\<lparr>next_index := Suc (next_index s)\<rparr>)"
    by (simp add: run_body2_def Let_def)
next
  fix k and s :: "('b, 'c, 'd) pool"
  assume "\<not> next_index s < length items"
  then show "\<exists>m\<ge>next_index s. run_body2 items worker k s = (Finished, s\<lparr>next_index := m\<rparr>)"
    by (intro exI [of _ "next_index s"]) (simp add: run_body2_def Let_def)
qed

lemma body_cases:
  assumes "body_like items worker body"
  obtains (claim) r t where "next_index s < length items" "holds r = Some (next_index s)"
      "body k s = (r, s\<lparr>next_index := Suc (next_index s),
                        claims := claims s @ [(k, next_index s)], trace := t\<rparr>)"
      "t = trace s @ first_events (worker (items ! next_index s))"
      "r = (if (\<exists>evs x. worker (items ! next_index s) = Settled_now evs x)
            then Ready (next_index s) else Pending (next_index s))"
    | (finish) m where "length items \<le> next_index s" "next_index s \<le> m"
      "body k s = (Finished, s\<lparr>next_index := m\<rparr>)"
proof (cases "next_index s < length items")
  case True
  with assms have "body k s =
      call_worker items worker k (next_index s) (s\<lparr>next_index := Suc (next_index s)\<rparr>)"
    by (simp add: body_like_def)
  then show ?thesis
    using True by (intro claim) (simp_all add: call_worker_eq)
next
  case False
  with assms obtain m where "m \<ge> next_index s" "body k s = (Finished, s\<lparr>next_index := m\<rparr>)"
    unfolding body_like_def by blast
  with False show ?thesis by (intro finish) simp_all
qed

lemma inv_resume:
  assumes bl: "body_like items worker body" and inv: "pool_inv items worker s"
  shows "pool_inv items worker (resume body items worker k s)"
proof (cases "k < length (runners s)")
  case False
  with inv show ?thesis by (simp add: resume_def)
next
  case k: True
  show ?thesis
  proof (cases "runners s ! k")
    case (Ready i)
    show ?thesis
    proof (cases "settles_with (worker (items ! i))")
      case (Inl e)
      with inv_reject [OF inv k Ready Inl] k Ready show ?thesis
        by (simp add: resume_def)
    next
      case (Inr v)
      define s1 where "s1 = s\<lparr>results := array_set (results s) i v\<rparr>"
      have inv1: "pool_inv items worker s1"
        unfolding s1_def by (rule inv_store [OF inv k Ready Inr])
      have rs1: "runners s1 = runners s" by (simp add: s1_def)
      have old: "\<exists>i v. runners s1 ! k = Ready i \<and> slot (results s1) i = Some v"
        using Ready by (simp add: s1_def slot_array_set)
      have res: "resume body items worker k s =
          (let (r, s') = body k s1 in s'\<lparr>runners := (runners s')[k := r]\<rparr>)"
        using k Ready Inr by (simp add: resume_def s1_def)
      from bl show ?thesis
      proof (cases rule: body_cases [where s = s1 and k = k])
        case (claim r t)
        have "pool_inv items worker
           (s1\<lparr>next_index := Suc (next_index s1), claims := claims s1 @ [(k, next_index s1)],
              trace := t, runners := (runners s1)[k := r]\<rparr>)"
          using inv1 claim(1) _ _ _ old
        proof (rule inv_claim)
          show "length (runners s1) \<le> length ((runners s1)[k := r])" by simp
          show "k < length ((runners s1)[k := r])" using k rs1 by simp
          show "k' < length (runners s1) \<and> (runners s1)[k := r] ! k' = runners s1 ! k'"
            if "k' < length ((runners s1)[k := r])" "k' \<noteq> k" for k'
            using that by simp
          show "holds ((runners s1)[k := r] ! k) = Some (next_index s1)"
            using k rs1 claim(2) by simp
        qed
        then show ?thesis
          by (simp add: res claim(3))
      next
        case (finish m)
        have "pool_inv items worker (s1\<lparr>next_index := m, runners := (runners s1)[k := Finished]\<rparr>)"
          using inv1 finish(1,2) _ _ _ old
        proof (rule inv_finish)
          show "length (runners s1) \<le> length ((runners s1)[k := Finished])" by simp
          show "k < length ((runners s1)[k := Finished])" using k rs1 by simp
          show "k' < length (runners s1) \<and> (runners s1)[k := Finished] ! k' = runners s1 ! k'"
            if "k' < length ((runners s1)[k := Finished])" "k' \<noteq> k" for k'
            using that by simp
          show "(runners s1)[k := Finished] ! k = Finished"
            using k rs1 by simp
        qed
        then show ?thesis
          by (simp add: res finish(3))
      qed
    qed
  qed (use inv in \<open>simp_all add: resume_def\<close>)
qed

lemma inv_spawn:
  assumes bl: "body_like items worker body" and inv: "pool_inv items worker s"
  shows "pool_inv items worker (spawn body s)"
proof -
  define k where "k = length (runners s)"
  have sp: "spawn body s = (let (r, s') = body k s in s'\<lparr>runners := runners s' @ [r]\<rparr>)"
    by (simp add: spawn_def k_def)
  have old: "k < length (runners s) \<Longrightarrow> \<exists>i v. runners s ! k = Ready i \<and> slot (results s) i = Some v"
    by (simp add: k_def)
  have same: "k' < length (runners s) \<and> (runners s @ [r]) ! k' = runners s ! k'"
    if "k' < length (runners s @ [r])" "k' \<noteq> k" for k' r
    using that by (auto simp: k_def nth_append)
  from bl show ?thesis
  proof (cases rule: body_cases [where s = s and k = k])
    case (claim r t)
    have "pool_inv items worker
       (s\<lparr>next_index := Suc (next_index s), claims := claims s @ [(k, next_index s)],
          trace := t, runners := runners s @ [r]\<rparr>)"
      using inv claim(1) _ _ same old
    proof (rule inv_claim)
      show "length (runners s) \<le> length (runners s @ [r])" by simp
      show "k < length (runners s @ [r])" by (simp add: k_def)
      show "holds ((runners s @ [r]) ! k) = Some (next_index s)"
        using claim(2) by (simp add: k_def)
    qed
    then show ?thesis
      by (simp add: sp claim(3))
  next
    case (finish m)
    have "pool_inv items worker (s\<lparr>next_index := m, runners := runners s @ [Finished]\<rparr>)"
      using inv finish(1,2) _ _ same old
    proof (rule inv_finish)
      show "length (runners s) \<le> length (runners s @ [Finished])" by simp
      show "k < length (runners s @ [Finished])" by (simp add: k_def)
      show "(runners s @ [Finished]) ! k = Finished" by (simp add: k_def)
    qed
    then show ?thesis
      by (simp add: sp finish(3))
  qed
qed

lemma inv_settle_step:
  assumes inv: "pool_inv items worker s"
  shows "pool_inv items worker (settle items worker k s)"
proof (cases "k < length (runners s)")
  case False
  with inv show ?thesis by (simp add: settle_def)
next
  case k: True
  show ?thesis
  proof (cases "runners s ! k")
    case (Pending i)
    with inv_settle [OF inv k Pending] k show ?thesis
      by (simp add: settle_def)
  qed (use inv in \<open>simp_all add: settle_def\<close>)
qed

lemma inv_step:
  assumes "body_like items worker body" and "pool_inv items worker s"
  shows "pool_inv items worker (step body items worker a s)"
  using assms by (cases a) (simp_all add: inv_settle_step inv_resume)

lemma inv_fold:
  assumes "body_like items worker body" and "pool_inv items worker s"
  shows "pool_inv items worker (fold (step body items worker) sched s)"
  using assms(2)
  by (induction sched arbitrary: s) (simp_all add: inv_step [OF assms(1)])

lemma inv_funpow:
  assumes "body_like items worker body" and "pool_inv items worker s"
  shows "pool_inv items worker ((spawn body ^^ n) s)"
  by (induction n) (simp_all add: assms inv_spawn [OF assms(1)])

lemma inv_init:
  "length rs0 \<le> length items \<Longrightarrow> \<forall>i. slot rs0 i = None \<Longrightarrow>
   pool_inv items worker
     \<lparr>next_index = 0, results = rs0, runners = [], first_rejection = None, claims = [], trace = []\<rparr>"
  by (rule pool_invI) simp_all

lemma slot_replicate_None: "slot (replicate n None) i = None"
  by (simp add: slot_def)

lemma slot_Nil: "slot [] i = None"
  by (simp add: slot_def)

lemma inv_lc1: "pool_inv items worker (limitConcurrency1 items limit worker sched)"
  unfolding limitConcurrency1_def launch1_def
  by (intro inv_fold inv_funpow inv_init body_like_1) (simp_all add: slot_replicate_None)

lemma inv_lc2:
  "new_array_length (math_min limit (length items)) \<noteq> None
     \<Longrightarrow> pool_inv items worker (limitConcurrency2 items limit worker sched)"
  unfolding limitConcurrency2_def launch2_def Let_def
  by (auto intro!: inv_fold inv_funpow inv_init body_like_2 simp: slot_Nil)

lemma runners_body:
  assumes "body_like items worker body"
  shows "runners (snd (body k s)) = runners s"
  using assms by (cases rule: body_cases [where s = s and k = k]) simp_all

lemma length_runners_resume:
  assumes "body_like items worker body"
  shows "length (runners (resume body items worker k s)) = length (runners s)"
proof -
  have "length (runners (case body k s' of (r, s'') \<Rightarrow> s''\<lparr>runners := (runners s'')[k := r]\<rparr>))
          = length (runners s')" for s'
    using runners_body [OF assms, of k s'] by (cases "body k s'") simp
  then show ?thesis
    by (simp add: resume_def split: runner.splits sum.splits)
qed

lemma length_runners_step:
  assumes "body_like items worker body"
  shows "length (runners (step body items worker a s)) = length (runners s)"
  by (cases a) (simp_all add: length_runners_resume [OF assms] settle_def split: runner.splits)

lemma length_runners_fold:
  assumes "body_like items worker body"
  shows "length (runners (fold (step body items worker) sched s)) = length (runners s)"
  by (induction sched arbitrary: s) (simp_all add: length_runners_step [OF assms])

lemma length_runners_spawn:
  assumes "body_like items worker body"
  shows "length (runners (spawn body s)) = Suc (length (runners s))"
  using runners_body [OF assms, of "length (runners s)" s]
  by (cases "body (length (runners s)) s") (simp add: spawn_def)

lemma length_runners_funpow:
  assumes "body_like items worker body"
  shows "length (runners ((spawn body ^^ n) s)) = n + length (runners s)"
  by (induction n) (simp_all add: length_runners_spawn [OF assms])

lemma runners_lc1:
  "length (runners (limitConcurrency1 items limit worker sched)) =
     array_from_length (math_min limit (length items))"
  by (simp add: limitConcurrency1_def launch1_def length_runners_fold [OF body_like_1]
      length_runners_funpow [OF body_like_1])

lemma runners_lc2:
  "length (runners (limitConcurrency2 items limit worker sched)) =
     (case new_array_length (math_min limit (length items)) of None \<Rightarrow> 0 | Some n \<Rightarrow> n)"
  by (simp add: limitConcurrency2_def launch2_def length_runners_fold [OF body_like_2]
      length_runners_funpow [OF body_like_2] split: option.splits)

lemma final_results:
  assumes inv: "pool_inv items worker s"
    and fin: "list_all (\<lambda>r. r = Finished) (runners s)"
    and ne: "runners s \<noteq> [] \<or> items = []"
  shows "results s = map (\<lambda>x. fulfilled (settles_with (worker x))) items
         \<and> list_all (succeeds worker) items
         \<and> map snd (claims s) = [0..<length items]"
proof -
  have allfin: "runners s ! k = Finished" if "k < length (runners s)" for k
    using fin that by (simp add: list_all_length)
  have c: "min (next_index s) (length items) = length items"
  proof (cases "items = []")
    case True
    then show ?thesis by simp
  next
    case False
    with ne have "0 < length (runners s)" by simp
    from inv_fin [OF inv this allfin [OF this]] show ?thesis by simp
  qed
  have each: "\<exists>v. settles_with (worker (items ! i)) = Inr v \<and> slot (results s) i = Some v"
    if "i < length items" for i
  proof -
    from that c have i: "i < min (next_index s) (length items)" by simp
    from inv_acct [OF inv i] show ?thesis
    proof
      assume "\<exists>k<length (runners s). holds (runners s ! k) = Some i"
      then show ?thesis using allfin by auto
    next
      assume a: "case settles_with (worker (items ! i)) of
              Inr v \<Rightarrow> slot (results s) i = Some v
            | Inl e \<Rightarrow> \<exists>k < length (runners s). runners s ! k = Rejected e"
      show ?thesis
      proof (cases "settles_with (worker (items ! i))")
        case (Inr v)
        with a show ?thesis by simp
      next
        case (Inl e)
        with a allfin show ?thesis by auto
      qed
    qed
  qed
  have len: "length (results s) = length items"
  proof (rule antisym [OF inv_len [OF inv]])
    show "length items \<le> length (results s)"
    proof (rule ccontr)
      assume "\<not> length items \<le> length (results s)"
      then have l: "length (results s) < length items" by simp
      from each [OF l] show False by (simp add: slot_def)
    qed
  qed
  have r: "results s = map (\<lambda>x. fulfilled (settles_with (worker x))) items"
  proof (rule nth_equalityI)
    show "length (results s) = length (map (\<lambda>x. fulfilled (settles_with (worker x))) items)"
      using len by simp
    show "results s ! i = map (\<lambda>x. fulfilled (settles_with (worker x))) items ! i"
      if "i < length (results s)" for i
      using each [of i] that len by (auto simp: slot_def)
  qed
  have ok: "list_all (succeeds worker) items"
    unfolding list_all_length succeeds_def
  proof (intro allI impI)
    fix n assume "n < length items"
    from each [OF this] obtain v where "settles_with (worker (items ! n)) = Inr v" by blast
    then show "case settles_with (worker (items ! n)) of Inr v \<Rightarrow> True | Inl e \<Rightarrow> False"
      by simp
  qed
  show ?thesis
    using r ok inv_claims [OF inv] c by simp
qed

lemma weight_update:
  assumes "k < length rs"
  shows "sum_list (map weight (rs[k := r])) + weight (rs ! k) = sum_list (map weight rs) + weight r"
proof -
  have le: "map weight rs ! k \<le> sum_list (map weight rs)"
    using assms by (intro elem_le_sum_list) simp
  have "sum_list ((map weight rs)[k := weight r]) = sum_list (map weight rs) + weight r - map weight rs ! k"
    using assms by (intro sum_list_update) simp
  with le assms show ?thesis by (simp add: map_update)
qed

lemma step_disabled: "\<not> enabled a s \<Longrightarrow> step body items worker a s = s"
  by (cases a) (auto simp: settle_def resume_def split: runner.splits)

lemma weight_le_2: "weight r \<le> 2"
  by (cases r) simp_all

lemma settle_decreases:
  assumes "enabled (Settle k) s"
  shows "work_left items (settle items worker k s) < work_left items s"
proof -
  from assms obtain i where k: "k < length (runners s)" and p: "runners s ! k = Pending i"
    by (auto split: runner.splits)
  have "sum_list (map weight ((runners s)[k := Ready i])) + 2 = sum_list (map weight (runners s)) + 1"
    using weight_update [OF k, of "Ready i"] p by simp
  then show ?thesis
    using k p by (simp add: settle_def work_left_def)
qed

lemma resume_decreases:
  assumes bl: "body_like items worker body" and en: "enabled (Resume k) s"
  shows "work_left items (resume body items worker k s) < work_left items s"
proof -
  from en obtain i where k: "k < length (runners s)" and p: "runners s ! k = Ready i"
    by (auto split: runner.splits)
  show ?thesis
  proof (cases "settles_with (worker (items ! i))")
    case (Inl e)
    have "sum_list (map weight ((runners s)[k := Rejected e])) + 1 = sum_list (map weight (runners s))"
      using weight_update [OF k, of "Rejected e"] p by simp
    then show ?thesis
      using k p Inl by (simp add: resume_def work_left_def)
  next
    case (Inr v)
    define s1 where "s1 = s\<lparr>results := array_set (results s) i v\<rparr>"
    have res: "resume body items worker k s =
        (let (r, s') = body k s1 in s'\<lparr>runners := (runners s')[k := r]\<rparr>)"
      using k p Inr by (simp add: resume_def s1_def)
    have w1: "work_left items s1 = work_left items s"
      by (simp add: s1_def work_left_def)
    have k1: "k < length (runners s1)" and p1: "runners s1 ! k = Ready i"
      using k p by (simp_all add: s1_def)
    from bl have "work_left items (resume body items worker k s) < work_left items s1"
    proof (cases rule: body_cases [where s = s1 and k = k])
      case (claim r t)
      have "sum_list (map weight ((runners s1)[k := r])) + 1 = sum_list (map weight (runners s1)) + weight r"
        using weight_update [OF k1, of r] p1 by simp
      with weight_le_2 [of r] claim(1) show ?thesis
        by (simp add: res claim(3) work_left_def)
    next
      case (finish m)
      have "sum_list (map weight ((runners s1)[k := Finished])) + 1 = sum_list (map weight (runners s1))"
        using weight_update [OF k1, of Finished] p1 by simp
      with finish(1,2) show ?thesis
        by (simp add: res finish(3) work_left_def)
    qed
    with w1 show ?thesis by simp
  qed
qed

lemma step_decreases:
  assumes "body_like items worker body" and "enabled a s"
  shows "work_left items (step body items worker a s) < work_left items s"
  using assms by (cases a) (simp_all add: settle_decreases resume_decreases)

lemma effective_bound:
  assumes bl: "body_like items worker body"
  shows "effective (step body items worker) sched s
           + work_left items (fold (step body items worker) sched s) \<le> work_left items s"
proof (induction sched arbitrary: s)
  case Nil
  then show ?case by simp
next
  case (Cons a sched)
  show ?case
  proof (cases "enabled a s")
    case True
    from step_decreases [OF bl True] Cons [of "step body items worker a s"]
    show ?thesis using True by simp
  next
    case False
    with Cons [of s] show ?thesis by (simp add: step_disabled)
  qed
qed

lemma spawn_work_left:
  assumes bl: "body_like items worker body"
  shows "work_left items (spawn body s) \<le> work_left items s"
proof -
  have sp: "spawn body s =
      (let (r, s') = body (length (runners s)) s in s'\<lparr>runners := runners s' @ [r]\<rparr>)"
    by (simp add: spawn_def)
  from bl show ?thesis
  proof (cases rule: body_cases [where s = s and k = "length (runners s)"])
    case (claim r t)
    with weight_le_2 [of r] show ?thesis
      by (simp add: sp work_left_def)
  next
    case (finish m)
    then show ?thesis
      by (simp add: sp work_left_def)
  qed
qed

lemma funpow_work_left:
  assumes bl: "body_like items worker body"
  shows "work_left items ((spawn body ^^ n) s) \<le> work_left items s"
proof (induction n)
  case 0
  then show ?case by simp
next
  case (Suc n)
  with spawn_work_left [OF bl, of "(spawn body ^^ n) s"] show ?case by simp
qed

lemma launch1_work_left: "work_left items (launch1 items limit worker) \<le> 2 * length items"
  unfolding launch1_def
  by (rule order_trans [OF funpow_work_left [OF body_like_1]]) (simp add: work_left_def)

lemma launch2_work_left: "work_left items (launch2 items limit worker) \<le> 2 * length items"
proof (cases "new_array_length (math_min limit (length items))")
  case None
  then show ?thesis by (simp add: launch2_def work_left_def)
next
  case (Some n)
  then show ?thesis
    unfolding launch2_def Let_def
    by simp (rule order_trans [OF funpow_work_left [OF body_like_2]], simp add: work_left_def)
qed

lemma not_quiescent_enabled:
  assumes "\<not> quiescent s"
  shows "\<exists>a. enabled a s"
proof -
  from assms obtain k where k: "k < length (runners s)" and a: "is_active (runners s ! k)"
    by (auto simp: quiescent_def list_all_length)
  show ?thesis
  proof (cases "runners s ! k")
    case (Pending i)
    with k have "enabled (Settle k) s" by simp
    then show ?thesis ..
  next
    case (Ready i)
    with k have "enabled (Resume k) s" by simp
    then show ?thesis ..
  qed (use a in simp_all)
qed

lemma can_finish:
  assumes bl: "body_like items worker body"
  shows "\<exists>sched. quiescent (fold (step body items worker) sched s)"
proof (induction "work_left items s" arbitrary: s rule: less_induct)
  case less
  show ?case
  proof (cases "quiescent s")
    case True
    then have "quiescent (fold (step body items worker) [] s)" by simp
    then show ?thesis ..
  next
    case False
    from not_quiescent_enabled [OF this] obtain a where a: "enabled a s" ..
    from less [OF step_decreases [OF bl a]] obtain sched
      where "quiescent (fold (step body items worker) sched (step body items worker a s))" ..
    then have "quiescent (fold (step body items worker) (a # sched) s)" by simp
    then show ?thesis ..
  qed
qed

lemma quiescent_no_failure:
  assumes inv: "pool_inv items worker s" and q: "quiescent s"
    and ok: "list_all (succeeds worker) items"
  shows "list_all (\<lambda>r. r = Finished) (runners s) \<and> first_rejection s = None"
proof -
  have norej: "runners s ! k \<noteq> Rejected e" if "k < length (runners s)" for k e
  proof
    assume "runners s ! k = Rejected e"
    from inv_rej [OF inv that this] obtain i
      where "i < length items" "settles_with (worker (items ! i)) = Inl e" by auto
    with ok show False by (auto simp: list_all_length succeeds_def)
  qed
  have "runners s ! k = Finished" if "k < length (runners s)" for k
    using q that norej [OF that] by (cases "runners s ! k") (auto simp: quiescent_def list_all_length)
  moreover have "first_rejection s = None"
  proof (cases "first_rejection s")
    case (Some x)
    from inv_first [OF inv this] norej show ?thesis by blast
  qed simp
  ultimately show ?thesis by (simp add: list_all_length)
qed

section \<open>Exactly-once claiming, clamping and the order of the results\<close>

lemma claimed_in_order_inv:
  assumes "pool_inv items worker s"
  shows "claimed_in_order s"
proof -
  have "length (claims s) = min (next_index s) (length items)"
    using arg_cong [OF inv_claims [OF assms], of length] by simp
  with inv_claims [OF assms] inv_who [OF assms] show ?thesis
    by (auto simp: claimed_in_order_def list_all_iff)
qed

lemma returned_InrD:
  "returned s = Some (Inr rs) \<Longrightarrow>
     first_rejection s = None \<and> list_all (\<lambda>r. r = Finished) (runners s) \<and> rs = results s"
  by (auto simp: returned_def split: option.splits if_splits)

lemma complete_if_finished:
  assumes inv: "pool_inv items worker s"
    and fin: "list_all (\<lambda>r. r = Finished) (runners s)" and nr: "first_rejection s = None"
    and ne: "runners s \<noteq> [] \<or> items = []"
  shows "complete items worker s"
  using final_results [OF inv fin ne] fin nr
  by (simp add: complete_def returned_def)

lemma runners_nonempty_1:
  assumes "1 \<le> c"
  shows "runners (limitConcurrency1 items (Num c) worker sched) \<noteq> [] \<or> items = []"
proof (cases "items = []")
  case False
  then have "0 < nat (min c (int (length items)))" using assms by simp
  then have "0 < length (runners (limitConcurrency1 items (Num c) worker sched))"
    by (simp add: runners_lc1 array_from_length_def math_min_def)
  then show ?thesis by auto
qed simp

lemma new_array_length_Num:
  "0 \<le> c \<Longrightarrow> new_array_length (math_min (Num c) n) = Some (nat (min c (int n)))"
  by (simp add: new_array_length_def math_min_def)

lemma runners_nonempty_2:
  assumes "1 \<le> c"
  shows "runners (limitConcurrency2 items (Num c) worker sched) \<noteq> [] \<or> items = []"
proof (cases "items = []")
  case False
  then have "0 < nat (min c (int (length items)))" using assms by simp
  then have "0 < length (runners (limitConcurrency2 items (Num c) worker sched))"
    using assms by (simp add: runners_lc2 new_array_length_Num)
  then show ?thesis by auto
qed simp

lemma inv_lc2_Num: "0 \<le> c \<Longrightarrow> pool_inv items worker (limitConcurrency2 items (Num c) worker sched)"
  by (rule inv_lc2) (simp add: new_array_length_Num)

lemma lc1_append:
  "limitConcurrency1 items limit worker (sched @ rest) =
     fold (step (run_body1 items worker) items worker) rest (limitConcurrency1 items limit worker sched)"
  by (simp add: limitConcurrency1_def)

lemma lc2_append:
  "limitConcurrency2 items limit worker (sched @ rest) =
     fold (step (run_body2 items worker) items worker) rest (limitConcurrency2 items limit worker sched)"
  by (simp add: limitConcurrency2_def)

lemma quiescent_complete_1:
  assumes c: "1 \<le> c" and ok: "list_all (succeeds worker) items"
    and q: "quiescent (limitConcurrency1 items (Num c) worker sched)"
  shows "complete items worker (limitConcurrency1 items (Num c) worker sched)"
  using quiescent_no_failure [OF inv_lc1 q ok] runners_nonempty_1 [OF c]
  by (intro complete_if_finished [OF inv_lc1]) simp_all

lemma quiescent_complete_2:
  assumes c: "1 \<le> c" and ok: "list_all (succeeds worker) items"
    and q: "quiescent (limitConcurrency2 items (Num c) worker sched)"
  shows "complete items worker (limitConcurrency2 items (Num c) worker sched)"
proof -
  have inv: "pool_inv items worker (limitConcurrency2 items (Num c) worker sched)"
    using c by (intro inv_lc2_Num) simp
  show ?thesis
    using quiescent_no_failure [OF inv q ok] runners_nonempty_2 [OF c]
    by (intro complete_if_finished [OF inv]) simp_all
qed

lemma finishes_1:
  "\<exists>rest. quiescent (limitConcurrency1 items limit worker (sched @ rest))"
  unfolding lc1_append by (rule can_finish [OF body_like_1])

lemma finishes_2:
  "\<exists>rest. quiescent (limitConcurrency2 items limit worker (sched @ rest))"
  unfolding lc2_append by (rule can_finish [OF body_like_2])

lemma effective_1:
  "effective (step (run_body1 items worker) items worker) sched (launch1 items limit worker)
     \<le> 2 * length items"
  using effective_bound [OF body_like_1, of items worker sched "launch1 items limit worker"]
    launch1_work_left [of items limit worker] by simp

lemma effective_2:
  "effective (step (run_body2 items worker) items worker) sched (launch2 items limit worker)
     \<le> 2 * length items"
  using effective_bound [OF body_like_2, of items worker sched "launch2 items limit worker"]
    launch2_work_left [of items limit worker] by simp

text \<open>
  C7. For every sequence of items, every limit of at least 1, every worker and every
  interleaving, in both variants: an array returned by \<^verbatim>\<open>limitConcurrency\<close> has, at
  every index \<open>i\<close>, the value of the worker call for \<open>items ! i\<close>, in the order of the
  items and whatever the order of completion was. An array is returned: when no worker
  call is rejected, every interleaving can be continued to one that returns it. (A
  rejected call rejects \<^verbatim>\<open>limitConcurrency\<close>, which then returns no array.)
\<close>

theorem results_indexed_like_items:
  assumes c: "1 \<le> c"
  shows "(returned (limitConcurrency1 items (Num c) worker sched) = Some (Inr rs) \<longrightarrow>
            rs = map (\<lambda>x. fulfilled (settles_with (worker x))) items
          \<and> list_all (succeeds worker) items)
       \<and> (returned (limitConcurrency2 items (Num c) worker sched) = Some (Inr rs) \<longrightarrow>
            rs = map (\<lambda>x. fulfilled (settles_with (worker x))) items
          \<and> list_all (succeeds worker) items)
       \<and> (list_all (succeeds worker) items \<longrightarrow>
            (\<exists>rest. returned (limitConcurrency1 items (Num c) worker (sched @ rest)) =
               Some (Inr (map (\<lambda>x. fulfilled (settles_with (worker x))) items)))
          \<and> (\<exists>rest. returned (limitConcurrency2 items (Num c) worker (sched @ rest)) =
               Some (Inr (map (\<lambda>x. fulfilled (settles_with (worker x))) items))))"
proof -
  have inv2: "pool_inv items worker (limitConcurrency2 items (Num c) worker sched')" for sched'
    using c by (intro inv_lc2_Num) simp
  have a: "rs = map (\<lambda>x. fulfilled (settles_with (worker x))) items
          \<and> list_all (succeeds worker) items"
    if "returned (limitConcurrency1 items (Num c) worker sched) = Some (Inr rs)"
    using returned_InrD [OF that] runners_nonempty_1 [OF c, of items worker sched]
      final_results [OF inv_lc1, of items "Num c" worker sched] by simp
  have b: "rs = map (\<lambda>x. fulfilled (settles_with (worker x))) items
          \<and> list_all (succeeds worker) items"
    if "returned (limitConcurrency2 items (Num c) worker sched) = Some (Inr rs)"
    using returned_InrD [OF that] runners_nonempty_2 [OF c, of items worker sched]
      final_results [OF inv2, of sched] by simp
  have d: "\<exists>rest. returned (limitConcurrency1 items (Num c) worker (sched @ rest)) =
               Some (Inr (map (\<lambda>x. fulfilled (settles_with (worker x))) items))"
    if ok: "list_all (succeeds worker) items"
  proof -
    from finishes_1 obtain rest
      where "quiescent (limitConcurrency1 items (Num c) worker (sched @ rest))" ..
    from quiescent_complete_1 [OF c ok this]
    have "returned (limitConcurrency1 items (Num c) worker (sched @ rest)) =
               Some (Inr (map (\<lambda>x. fulfilled (settles_with (worker x))) items))"
      by (simp add: complete_def)
    then show ?thesis ..
  qed
  have e: "\<exists>rest. returned (limitConcurrency2 items (Num c) worker (sched @ rest)) =
               Some (Inr (map (\<lambda>x. fulfilled (settles_with (worker x))) items))"
    if ok: "list_all (succeeds worker) items"
  proof -
    from finishes_2 obtain rest
      where "quiescent (limitConcurrency2 items (Num c) worker (sched @ rest))" ..
    from quiescent_complete_2 [OF c ok this]
    have "returned (limitConcurrency2 items (Num c) worker (sched @ rest)) =
               Some (Inr (map (\<lambda>x. fulfilled (settles_with (worker x))) items))"
      by (simp add: complete_def)
    then show ?thesis ..
  qed
  show ?thesis
    using a b d e by blast
qed

text \<open>
  C7 on three files and two runners, the second runner completing first: the results
  are in the order of the files.
\<close>

theorem results_indexed_like_items_witness:
  "returned (limitConcurrency2 [''a.txt'', ''b.txt'', ''c.txt''] (Num 2)
       (upload key_replace example_env ''bucket'' ''dir'' [] False)
       [Settle 1, Resume 1, Settle 1, Settle 0, Resume 0, Resume 1]) =
     Some (Inr [Some (), Some (), Some ()])
   \<and> list_all (succeeds (upload key_replace example_env ''bucket'' ''dir'' [] False))
       [''a.txt'', ''b.txt'', ''c.txt'']"
proof -
  have c: "(1::int) \<le> 2" by simp
  have r: "returned (limitConcurrency2 [''a.txt'', ''b.txt'', ''c.txt''] (Num 2)
       (upload key_replace example_env ''bucket'' ''dir'' [] False)
       [Settle 1, Resume 1, Settle 1, Settle 0, Resume 0, Resume 1]) =
     Some (Inr [Some (), Some (), Some ()])"
    by code_simp
  from results_indexed_like_items [OF c, of "[''a.txt'', ''b.txt'', ''c.txt'']"
      "upload key_replace example_env ''bucket'' ''dir'' [] False"
      "[Settle 1, Resume 1, Settle 1, Settle 0, Resume 0, Resume 1]" "[Some (), Some (), Some ()]"] r
  have "list_all (succeeds (upload key_replace example_env ''bucket'' ''dir'' [] False))
       [''a.txt'', ''b.txt'', ''c.txt'']" by blast
  with r show ?thesis by simp
qed

text \<open>
  C1, as the code has it. For every sequence of items, every limit of at least 1,
  every worker and every interleaving, in both variants: the claims made so far are
  the indices \<open>0, 1, 2, \<dots>\<close> in this order, each claimed once and by a runner that
  exists, so no index is claimed twice and none below the cursor is skipped. When no
  worker call is rejected, a run that has come to rest is complete (every index of the
  items claimed exactly once, one result per index, the array returned), every
  interleaving can be continued until the run rests, and no interleaving has more
  than twice as many enabled actions as there are items.
\<close>

theorem each_index_claimed_once:
  assumes c: "1 \<le> c"
  shows "claimed_in_order (limitConcurrency1 items (Num c) worker sched)
       \<and> claimed_in_order (limitConcurrency2 items (Num c) worker sched)
       \<and> (list_all (succeeds worker) items \<longrightarrow>
            (quiescent (limitConcurrency1 items (Num c) worker sched)
               \<longrightarrow> complete items worker (limitConcurrency1 items (Num c) worker sched))
          \<and> (quiescent (limitConcurrency2 items (Num c) worker sched)
               \<longrightarrow> complete items worker (limitConcurrency2 items (Num c) worker sched))
          \<and> (\<exists>rest. quiescent (limitConcurrency1 items (Num c) worker (sched @ rest)))
          \<and> (\<exists>rest. quiescent (limitConcurrency2 items (Num c) worker (sched @ rest))))
       \<and> effective (step (run_body1 items worker) items worker) sched
            (launch1 items (Num c) worker) \<le> 2 * length items
       \<and> effective (step (run_body2 items worker) items worker) sched
            (launch2 items (Num c) worker) \<le> 2 * length items"
proof -
  have inv2: "pool_inv items worker (limitConcurrency2 items (Num c) worker sched)"
    using c by (intro inv_lc2_Num) simp
  show ?thesis
    using claimed_in_order_inv [OF inv_lc1, of items "Num c" worker sched]
      claimed_in_order_inv [OF inv2]
      quiescent_complete_1 [OF c, of worker items sched]
      quiescent_complete_2 [OF c, of worker items sched]
      finishes_1 [of items "Num c" worker sched] finishes_2 [of items "Num c" worker sched]
      effective_1 [of items worker sched "Num c"] effective_2 [of items worker sched "Num c"]
    by blast
qed

text \<open>C1 on three files and two runners: the run is complete, runner 1 having claimed two files.\<close>

theorem each_index_claimed_once_witness:
  "complete [''a.txt'', ''b.txt'', ''c.txt'']
     (upload key_split_join example_env ''bucket'' ''dir'' [] False)
     (limitConcurrency1 [''a.txt'', ''b.txt'', ''c.txt''] (Num 2)
        (upload key_split_join example_env ''bucket'' ''dir'' [] False)
        [Settle 1, Resume 1, Settle 1, Settle 0, Resume 0, Resume 1])
   \<and> claims (limitConcurrency1 [''a.txt'', ''b.txt'', ''c.txt''] (Num 2)
        (upload key_split_join example_env ''bucket'' ''dir'' [] False)
        [Settle 1, Resume 1, Settle 1, Settle 0, Resume 0, Resume 1]) = [(0, 0), (1, 1), (1, 2)]"
proof -
  have c: "(1::int) \<le> 2" by simp
  have ok: "list_all (succeeds (upload key_split_join example_env ''bucket'' ''dir'' [] False))
       [''a.txt'', ''b.txt'', ''c.txt'']"
    by code_simp
  have q: "quiescent (limitConcurrency1 [''a.txt'', ''b.txt'', ''c.txt''] (Num 2)
        (upload key_split_join example_env ''bucket'' ''dir'' [] False)
        [Settle 1, Resume 1, Settle 1, Settle 0, Resume 0, Resume 1])"
    by code_simp
  have cl: "claims (limitConcurrency1 [''a.txt'', ''b.txt'', ''c.txt''] (Num 2)
        (upload key_split_join example_env ''bucket'' ''dir'' [] False)
        [Settle 1, Resume 1, Settle 1, Settle 0, Resume 0, Resume 1]) = [(0, 0), (1, 1), (1, 2)]"
    by code_simp
  from each_index_claimed_once [OF c, of "[''a.txt'', ''b.txt'', ''c.txt'']"
      "upload key_split_join example_env ''bucket'' ''dir'' [] False"
      "[Settle 1, Resume 1, Settle 1, Settle 0, Resume 0, Resume 1]"] ok q cl
  show ?thesis by blast
qed

text \<open>
  C1 as stated fails when a worker call is rejected. Two files, limit 1, the first file
  unreadable: after the launch the only enabled action is the resumption of the one
  runner; it is rejected, the run rests, index 1 has never been claimed and there is no
  result at any index.
\<close>

theorem skipped_after_failure_counterexample:
  "quiescent (limitConcurrency1 [''b.txt'', ''c.txt''] (Num 1)
       (upload key_split_join deleted_env ''bucket'' ''dir'' [] False) [Resume 0])
   \<and> claims (limitConcurrency1 [''b.txt'', ''c.txt''] (Num 1)
       (upload key_split_join deleted_env ''bucket'' ''dir'' [] False) [Resume 0]) = [(0, 0)]
   \<and> results (limitConcurrency1 [''b.txt'', ''c.txt''] (Num 1)
       (upload key_split_join deleted_env ''bucket'' ''dir'' [] False) [Resume 0]) = [None, None]
   \<and> launch1 [''b.txt'', ''c.txt''] (Num 1)
       (upload key_split_join deleted_env ''bucket'' ''dir'' [] False) =
     \<lparr>next_index = 1, results = [None, None], runners = [Ready 0],
      first_rejection = None, claims = [(0, 0)], trace = []\<rparr>
   \<and> quiescent (limitConcurrency2 [''b.txt'', ''c.txt''] (Num 1)
       (upload key_replace deleted_env ''bucket'' ''dir'' [] False) [Resume 0])
   \<and> claims (limitConcurrency2 [''b.txt'', ''c.txt''] (Num 1)
       (upload key_replace deleted_env ''bucket'' ''dir'' [] False) [Resume 0]) = [(0, 0)]"
  by code_simp




section \<open>The two variants of \<^verbatim>\<open>limitConcurrency\<close> compared\<close>

lemma sim_after_body:
  assumes b1: "body_like items worker body1" and b2: "body_like items worker body2"
    and sv: "same_view (length items) s1 s2"
  shows "same_view (length items)
           (case body1 k s1 of (r, s') \<Rightarrow> s'\<lparr>runners := f (runners s') r\<rparr>)
           (case body2 k s2 of (r, s') \<Rightarrow> s'\<lparr>runners := f (runners s') r\<rparr>)"
proof (cases "next_index s1 < length items")
  case True
  with sv have n: "next_index s2 = next_index s1" and n2: "next_index s2 < length items"
    by (auto simp: same_view_def min_def split: if_splits)
  from b1 True have e1: "body1 k s1 =
      call_worker items worker k (next_index s1) (s1\<lparr>next_index := Suc (next_index s1)\<rparr>)"
    by (simp add: body_like_def)
  from b2 n2 n have e2: "body2 k s2 =
      call_worker items worker k (next_index s1) (s2\<lparr>next_index := Suc (next_index s1)\<rparr>)"
    by (simp add: body_like_def)
  show ?thesis
    using sv by (simp add: e1 e2 call_worker_eq same_view_def)
next
  case False
  with sv have n2: "\<not> next_index s2 < length items"
    by (auto simp: same_view_def min_def split: if_splits)
  from b1 False obtain m1 where m1: "m1 \<ge> next_index s1" "body1 k s1 = (Finished, s1\<lparr>next_index := m1\<rparr>)"
    unfolding body_like_def by blast
  from b2 n2 obtain m2 where m2: "m2 \<ge> next_index s2" "body2 k s2 = (Finished, s2\<lparr>next_index := m2\<rparr>)"
    unfolding body_like_def by blast
  have "min m1 (length items) = min m2 (length items)"
    using False n2 m1(1) m2(1) by simp
  then show ?thesis
    using sv by (simp add: m1(2) m2(2) same_view_def)
qed

lemma sim_results:
  "same_view L s1 s2 \<Longrightarrow>
     same_view L (s1\<lparr>results := array_set (results s1) i v\<rparr>) (s2\<lparr>results := array_set (results s2) i v\<rparr>)"
  by (simp add: same_view_def slot_array_set)

lemma sim_resume:
  assumes b1: "body_like items worker body1" and b2: "body_like items worker body2"
    and sv: "same_view (length items) s1 s2"
  shows "same_view (length items) (resume body1 items worker k s1) (resume body2 items worker k s2)"
proof -
  have rs: "runners s2 = runners s1" using sv by (simp add: same_view_def)
  show ?thesis
  proof (cases "k < length (runners s1)")
    case False
    with sv rs show ?thesis by (simp add: resume_def)
  next
    case k: True
    show ?thesis
    proof (cases "runners s1 ! k")
      case (Ready i)
      show ?thesis
      proof (cases "settles_with (worker (items ! i))")
        case (Inl e)
        with sv k Ready rs show ?thesis
          by (simp add: resume_def same_view_def)
      next
        case (Inr v)
        from sim_after_body [OF b1 b2 sim_results [OF sv, where i = i and v = v],
            where k = k and f = "\<lambda>rs r. rs[k := r]"]
        show ?thesis
          using k Ready rs Inr by (simp add: resume_def)
      qed
    qed (use sv rs k in \<open>simp_all add: resume_def\<close>)
  qed
qed

lemma sim_settle:
  assumes sv: "same_view L s1 s2"
  shows "same_view L (settle items worker k s1) (settle items worker k s2)"
proof -
  have rs: "runners s2 = runners s1" using sv by (simp add: same_view_def)
  show ?thesis
    using sv rs by (auto simp: settle_def same_view_def split: runner.splits)
qed

lemma sim_step:
  assumes "body_like items worker body1" and "body_like items worker body2"
    and "same_view (length items) s1 s2"
  shows "same_view (length items) (step body1 items worker a s1) (step body2 items worker a s2)"
  using assms by (cases a) (simp_all add: sim_settle sim_resume)

lemma sim_fold:
  assumes b1: "body_like items worker body1" and b2: "body_like items worker body2"
    and "same_view (length items) s1 s2"
  shows "same_view (length items)
           (fold (step body1 items worker) sched s1) (fold (step body2 items worker) sched s2)"
  using assms(3)
  by (induction sched arbitrary: s1 s2) (simp_all add: sim_step [OF b1 b2])

lemma sim_spawn:
  assumes b1: "body_like items worker body1" and b2: "body_like items worker body2"
    and sv: "same_view (length items) s1 s2"
  shows "same_view (length items) (spawn body1 s1) (spawn body2 s2)"
proof -
  have rs: "runners s2 = runners s1" using sv by (simp add: same_view_def)
  from sim_after_body [OF b1 b2 sv, where k = "length (runners s1)" and f = "\<lambda>rs r. rs @ [r]"]
  show ?thesis by (simp add: spawn_def rs)
qed

lemma sim_funpow:
  assumes b1: "body_like items worker body1" and b2: "body_like items worker body2"
    and sv: "same_view (length items) s1 s2"
  shows "same_view (length items) ((spawn body1 ^^ n) s1) ((spawn body2 ^^ n) s2)"
  by (induction n) (simp_all add: sv sim_spawn [OF b1 b2])

lemma sim_launch:
  assumes "0 \<le> c"
  shows "same_view (length items) (launch1 items (Num c) worker) (launch2 items (Num c) worker)"
proof -
  have n: "array_from_length (math_min (Num c) (length items)) = nat (min c (int (length items)))"
    by (simp add: array_from_length_def math_min_def)
  show ?thesis
    unfolding launch1_def launch2_def Let_def n new_array_length_Num [OF assms]
    by simp (rule sim_funpow [OF body_like_1 body_like_2], simp add: same_view_def slot_def)
qed

lemma sim_lc:
  assumes "0 \<le> c"
  shows "same_view (length items)
           (limitConcurrency1 items (Num c) worker sched) (limitConcurrency2 items (Num c) worker sched)"
  unfolding limitConcurrency1_def limitConcurrency2_def
  by (rule sim_fold [OF body_like_1 body_like_2 sim_launch [OF assms]])

lemma returned_same:
  assumes c: "1 \<le> c"
  shows "returned (limitConcurrency1 items (Num c) worker sched) =
         returned (limitConcurrency2 items (Num c) worker sched)"
proof -
  let ?s1 = "limitConcurrency1 items (Num c) worker sched"
  let ?s2 = "limitConcurrency2 items (Num c) worker sched"
  have sv: "same_view (length items) ?s1 ?s2"
    using c by (intro sim_lc) simp
  then have rs: "runners ?s1 = runners ?s2" and fr: "first_rejection ?s1 = first_rejection ?s2"
    by (simp_all add: same_view_def)
  have inv2: "pool_inv items worker ?s2"
    using c by (intro inv_lc2_Num) simp
  show ?thesis
  proof (cases "first_rejection ?s1 = None \<and> list_all (\<lambda>r. r = Finished) (runners ?s1)")
    case True
    with final_results [OF inv_lc1, of items "Num c" worker sched] runners_nonempty_1 [OF c, of items worker sched]
    have r1: "results ?s1 = map (\<lambda>x. fulfilled (settles_with (worker x))) items" by simp
    from True rs final_results [OF inv2] runners_nonempty_2 [OF c, of items worker sched]
    have r2: "results ?s2 = map (\<lambda>x. fulfilled (settles_with (worker x))) items" by simp
    show ?thesis
      using True rs fr r1 r2 by (simp add: returned_def)
  next
    case False
    then show ?thesis
      using rs fr by (auto simp: returned_def split: option.splits)
  qed
qed

text \<open>
  C10, as the code has it. For every sequence of items, every limit of at least 1,
  every worker and every interleaving, the two variants agree in everything that can
  be observed: they start the same number of runners, the runners are in the same
  states, the same indices have been claimed by the same runners in the same order
  (so the multisets of claimed indices are equal), the same events have happened, and
  \<^verbatim>\<open>limitConcurrency\<close> returns the same array, is rejected with the same error, or is
  still pending in both.
\<close>

theorem variants_equivalent:
  assumes c: "1 \<le> c"
  shows "length (runners (limitConcurrency1 items (Num c) worker sched)) =
           length (runners (limitConcurrency2 items (Num c) worker sched))
       \<and> runners (limitConcurrency1 items (Num c) worker sched) =
           runners (limitConcurrency2 items (Num c) worker sched)
       \<and> claims (limitConcurrency1 items (Num c) worker sched) =
           claims (limitConcurrency2 items (Num c) worker sched)
       \<and> mset (map snd (claims (limitConcurrency1 items (Num c) worker sched))) =
           mset (map snd (claims (limitConcurrency2 items (Num c) worker sched)))
       \<and> trace (limitConcurrency1 items (Num c) worker sched) =
           trace (limitConcurrency2 items (Num c) worker sched)
       \<and> returned (limitConcurrency1 items (Num c) worker sched) =
           returned (limitConcurrency2 items (Num c) worker sched)"
proof -
  have "same_view (length items)
           (limitConcurrency1 items (Num c) worker sched) (limitConcurrency2 items (Num c) worker sched)"
    using c by (intro sim_lc) simp
  then show ?thesis
    using returned_same [OF c, of items worker sched] by (simp add: same_view_def)
qed

text \<open>C10 on three files and two runners: what the second variant returns, the first returns too.\<close>

theorem variants_equivalent_witness:
  "returned (limitConcurrency1 [''a.txt'', ''b.txt'', ''c.txt''] (Num 2)
       (upload key_replace example_env ''bucket'' ''dir'' [] False)
       [Settle 1, Resume 1, Settle 1, Settle 0, Resume 0, Resume 1]) =
     Some (Inr [Some (), Some (), Some ()])
   \<and> claims (limitConcurrency1 [''a.txt'', ''b.txt'', ''c.txt''] (Num 2)
       (upload key_replace example_env ''bucket'' ''dir'' [] False)
       [Settle 1, Resume 1, Settle 1, Settle 0, Resume 0, Resume 1]) = [(0, 0), (1, 1), (1, 2)]"
proof -
  have c: "(1::int) \<le> 2" by simp
  have r: "returned (limitConcurrency2 [''a.txt'', ''b.txt'', ''c.txt''] (Num 2)
       (upload key_replace example_env ''bucket'' ''dir'' [] False)
       [Settle 1, Resume 1, Settle 1, Settle 0, Resume 0, Resume 1]) =
     Some (Inr [Some (), Some (), Some ()])"
    by code_simp
  have cl: "claims (limitConcurrency2 [''a.txt'', ''b.txt'', ''c.txt''] (Num 2)
       (upload key_replace example_env ''bucket'' ''dir'' [] False)
       [Settle 1, Resume 1, Settle 1, Settle 0, Resume 0, Resume 1]) = [(0, 0), (1, 1), (1, 2)]"
    by code_simp
  show ?thesis
    using variants_equivalent [OF c, of "[''a.txt'', ''b.txt'', ''c.txt'']"
      "upload key_replace example_env ''bucket'' ''dir'' [] False"
      "[Settle 1, Resume 1, Settle 1, Settle 0, Resume 0, Resume 1]"] r cl
    by simp
qed

text \<open>
  C10 as stated fails for limits below 1. With one item and the limit 0 no runner is
  started; the first variant returns its pre-sized array, of length 1 with a hole, the
  second its empty array. With the limit \<open>-1\<close> or \<^verbatim>\<open>NaN\<close> the first variant does the
  same, and the second is rejected with the \<^verbatim>\<open>RangeError\<close> of \<^verbatim>\<open>new Array\<close>.
\<close>

theorem variants_differ_counterexample:
  "returned (limitConcurrency1 [''a.txt''] (Num 0)
       (upload key_replace example_env ''bucket'' ''dir'' [] False) []) = Some (Inr [None])
   \<and> returned (limitConcurrency2 [''a.txt''] (Num 0)
       (upload key_replace example_env ''bucket'' ''dir'' [] False) []) = Some (Inr [])
   \<and> returned (limitConcurrency1 [''a.txt''] (Num (- 1))
       (upload key_replace example_env ''bucket'' ''dir'' [] False) []) = Some (Inr [None])
   \<and> returned (limitConcurrency2 [''a.txt''] (Num (- 1))
       (upload key_replace example_env ''bucket'' ''dir'' [] False) []) = Some (Inl InvalidArrayLength)
   \<and> returned (limitConcurrency1 [''a.txt''] NaN
       (upload key_replace example_env ''bucket'' ''dir'' [] False) []) = Some (Inr [None])
   \<and> returned (limitConcurrency2 [''a.txt''] NaN
       (upload key_replace example_env ''bucket'' ''dir'' [] False) []) = Some (Inl InvalidArrayLength)"
  by code_simp

section \<open>The events of a run and the dry mode\<close>








lemma take_min_Suc:
  "n < length xs \<Longrightarrow> map f (take (min (Suc n) (length xs)) xs) = map f (take (min n (length xs)) xs) @ [f (xs ! n)]"
  by (simp add: take_Suc_conv_app_nth min_def)





lemma is_dry_line_dry_line: "is_dry_line (ConsoleLog (dry_line key data))"
  by (simp add: dry_line_def)


















section \<open>Failures\<close>


lemma claims_of_append_other:
  "k' \<noteq> k \<Longrightarrow> map snd (filter (\<lambda>p. fst p = k) (cl @ [(k', i)])) = map snd (filter (\<lambda>p. fst p = k) cl)"
  by simp










end
